theory Spec2Isabelle
  imports Complex_Main "HOL-Library.Log_Nat"
begin

section \<open>Aggregation test data generator: a model of \<open>generate_data.py\<close>\<close>

text \<open>
  The program draws random values, groups seven of them into a \<open>DataString\<close> and
  writes a CSV file and an XML file. The model makes the random source explicit: a
  generator state is an infinite sequence of raw draws (integers), and every library call that
  consumes randomness takes the state and returns the rest of the sequence.
  Exceptions are values of type \<open>error\<close>; a function that may raise returns
  \<open>error + result\<close>.
\<close>

subsection \<open>Errors and the random source\<close>

datatype error = ValueError | TypeError | OverflowError

type_synonym rng = "nat \<Rightarrow> int"

text \<open>One raw draw: the head of the sequence, and the sequence that remains.\<close>

definition draw :: "rng \<Rightarrow> int \<times> rng" where
  "draw g = (g 0, \<lambda>i. g (Suc i))"

text \<open>
  \<open>Random._randbelow(n)\<close> for \<open>n > 0\<close>: some integer of \<open>[0, n)\<close>. Every one of
  them is the image of a raw draw.
\<close>

definition randbelow :: "int \<Rightarrow> rng \<Rightarrow> int \<times> rng" where
  "randbelow n g = (case draw g of (k, g') \<Rightarrow> (k mod n, g'))"

text \<open>
  \<open>random.randrange(start, stop)\<close> with the default step:
  \<^verbatim>\<open>
  width = istop - istart
  if istep == 1:
      if width > 0:
          return istart + self._randbelow(width)
      raise ValueError("empty range for randrange()")
  \<close>
\<close>

definition randrange :: "int \<Rightarrow> int \<Rightarrow> rng \<Rightarrow> error + (int \<times> rng)" where
  "randrange start stop g =
     (let width = stop - start in
      if 0 < width then (case randbelow width g of (k, g') \<Rightarrow> Inr (start + k, g'))
      else Inl ValueError)"

subsection \<open>\<open>RandomData.rand_value\<close>: the integer strategy\<close>

text \<open>
  \<^verbatim>\<open>
  def rand_int(min, max):
      return random.randrange(min, max)
  \<close>
\<close>

definition rand_int :: "int \<Rightarrow> int \<Rightarrow> rng \<Rightarrow> error + (int \<times> rng)" where
  "rand_int lo hi g = randrange lo hi g"

subsection \<open>Strings and integer formatting\<close>

definition newline :: char where
  "newline = CHR 0x0A"

text \<open>\<open>sep.join(xs)\<close>\<close>

fun join :: "string \<Rightarrow> string list \<Rightarrow> string" where
  "join sep [] = []"
| "join sep [x] = x"
| "join sep (x # y # ys) = x @ sep @ join sep (y # ys)"

text \<open>\<open>s.split(sep)\<close> for a one-character separator.\<close>

fun split :: "char \<Rightarrow> string \<Rightarrow> string list" where
  "split c [] = [[]]"
| "split c (x # xs) =
     (if x = c then [] # split c xs
      else (case split c xs of [] \<Rightarrow> [[x]] | l # ls \<Rightarrow> (x # l) # ls))"

definition digit_char :: "int \<Rightarrow> char" where
  "digit_char d = ''0123456789'' ! nat d"

text \<open>The decimal digits of a number that is not negative.\<close>

function str_nat :: "int \<Rightarrow> string" where
  "str_nat n = (if n < 10 then [digit_char n] else str_nat (n div 10) @ [digit_char (n mod 10)])"
  by pat_completeness auto
termination
  by (relation "measure nat") auto

declare str_nat.simps [simp del]

text \<open>\<open>str(i)\<close> for an \<open>int\<close>.\<close>

definition str_int :: "int \<Rightarrow> string" where
  "str_int i = (if i < 0 then CHR ''-'' # str_nat (- i) else str_nat i)"

text \<open>\<open>'%0wd' % i\<close>, the same as \<open>'{:0wd}'.format(i)\<close>: the sign counts in the width.\<close>

definition format_d :: "nat \<Rightarrow> int \<Rightarrow> string" where
  "format_d w i =
     (let s = str_nat \<bar>i\<bar>; sign = (if i < 0 then ''-'' else [])
      in sign @ replicate (w - (length sign + length s)) CHR ''0'' @ s)"

subsection \<open>Floating point\<close>

text \<open>
  A Python \<open>float\<close> is an IEEE binary64 number; the model keeps its exact rational
  value in a \<open>rat\<close>. Every arithmetic operation computes the exact result and
  rounds it with \<open>fl\<close> to the nearest number with a 53-bit significand, ties to
  even. The exponent range is not modelled (no overflow to infinity, no
  subnormals): the magnitudes of this program lie between \<open>2\<^sup>-\<^sup>5\<^sup>3\<close> and
  \<open>2\<^sup>5\<^sup>3\<close>.
\<close>

text \<open>\<open>round(x)\<close> of a float, to an \<open>int\<close>: ties go to the even neighbour.\<close>

definition round_half_even :: "rat \<Rightarrow> int" where
  "round_half_even x =
     (let f = \<lfloor>x\<rfloor>; d = x - of_int f in
      if d < 1 / 2 then f else if 1 / 2 < d then f + 1 else if even f then f else f + 1)"

text \<open>The binary exponent \<open>e\<close> of \<open>x \<noteq> 0\<close>: \<open>2\<^sup>e \<le> |x| < 2\<^sup>e\<^sup>+\<^sup>1\<close>.\<close>

definition float_exponent :: "rat \<Rightarrow> int" where
  "float_exponent x =
     (case quotient_of \<bar>x\<bar> of (p, q) \<Rightarrow>
        let e = bitlen p - bitlen q in if 2 powi e \<le> \<bar>x\<bar> then e else e - 1)"

definition fl :: "rat \<Rightarrow> rat" where
  "fl x = (if x = 0 then 0
           else let q = 2 powi (float_exponent x - 52)
                in of_int (round_half_even (x / q)) * q)"

text \<open>\<open>math.modf(x)\<close>: the fractional and the integral part, both with the sign of \<open>x\<close>.\<close>

definition trunc :: "rat \<Rightarrow> int" where
  "trunc x = (if 0 \<le> x then \<lfloor>x\<rfloor> else \<lceil>x\<rceil>)"

definition modf :: "rat \<Rightarrow> rat \<times> int" where
  "modf x = (x - of_int (trunc x), trunc x)"

text \<open>
  \<open>random.random()\<close>: 53 random bits scaled to \<open>[0, 1)\<close>, and
  \<^verbatim>\<open>
  def uniform(self, a, b):
      return a + (b - a) * self.random()
  \<close>
\<close>

definition random_float :: "rng \<Rightarrow> rat \<times> rng" where
  "random_float g = (case draw g of (k, g') \<Rightarrow> (of_int (k mod 2 ^ 53) / 2 ^ 53, g'))"

definition uniform :: "rat \<Rightarrow> rat \<Rightarrow> rng \<Rightarrow> rat \<times> rng" where
  "uniform a b g = (case random_float g of (u, g') \<Rightarrow> (fl (a + fl (fl (b - a) * u)), g'))"

subsection \<open>The proleptic Gregorian calendar of \<open>datetime\<close>\<close>

definition MINYEAR :: int where "MINYEAR = 1"
definition MAXYEAR :: int where "MAXYEAR = 9999"
definition MAXORDINAL :: int where "MAXORDINAL = 3652059"

definition DAYS_IN_MONTH :: "int list" where
  "DAYS_IN_MONTH = [-1, 31, 28, 31, 30, 31, 30, 31, 31, 30, 31, 30, 31]"

definition DAYS_BEFORE_MONTH :: "int list" where
  "DAYS_BEFORE_MONTH = [-1, 0, 31, 59, 90, 120, 151, 181, 212, 243, 273, 304, 334]"

definition is_leap :: "int \<Rightarrow> bool" where
  "is_leap y = (y mod 4 = 0 \<and> (y mod 100 \<noteq> 0 \<or> y mod 400 = 0))"

definition days_before_year :: "int \<Rightarrow> int" where
  "days_before_year y' = (let y = y' - 1 in y * 365 + y div 4 - y div 100 + y div 400)"

definition days_in_month :: "int \<Rightarrow> int \<Rightarrow> int" where
  "days_in_month y m = (if m = 2 \<and> is_leap y then 29 else DAYS_IN_MONTH ! nat m)"

definition days_before_month :: "int \<Rightarrow> int \<Rightarrow> int" where
  "days_before_month y m = DAYS_BEFORE_MONTH ! nat m + (if 2 < m \<and> is_leap y then 1 else 0)"

definition ymd2ord :: "int \<Rightarrow> int \<Rightarrow> int \<Rightarrow> int" where
  "ymd2ord y m d = days_before_year y + days_before_month y m + d"

text \<open>
  \<open>_ord2ymd\<close>: the 400-, 100-, 4- and 1-year cycles before ordinal \<open>n\<close>, then the
  month from an estimate that is exact or one too large.
\<close>

definition ord2ymd :: "int \<Rightarrow> int \<times> int \<times> int" where
  "ord2ymd n0 =
     (let n = n0 - 1;
          n400 = n div 146097; n = n mod 146097;
          n100 = n div 36524; n = n mod 36524;
          n4 = n div 1461; n = n mod 1461;
          n1 = n div 365; n = n mod 365;
          y = n400 * 400 + 1 + n100 * 100 + n4 * 4 + n1
      in if n1 = 4 \<or> n100 = 4 then (y - 1, 12, 31)
         else
           let leapyear = (n1 = 3 \<and> (n4 \<noteq> 24 \<or> n100 = 3));
               m = (n + 50) div 32;
               preceding = DAYS_BEFORE_MONTH ! nat m + (if 2 < m \<and> leapyear then 1 else 0)
           in if n < preceding
              then let m' = m - 1;
                       preceding' = preceding -
                         (DAYS_IN_MONTH ! nat m' + (if m' = 2 \<and> leapyear then 1 else 0))
                   in (y, m', n - preceding' + 1)
              else (y, m, n - preceding + 1))"

subsection \<open>\<open>datetime\<close> and \<open>timedelta\<close>\<close>

record datetime =
  year :: int
  month :: int
  day :: int
  hour :: int
  minute :: int
  second :: int
  microsecond :: int

text \<open>The constructor, with \<open>_check_date_fields\<close> and \<open>_check_time_fields\<close>.\<close>

definition datetime_new ::
  "int \<Rightarrow> int \<Rightarrow> int \<Rightarrow> int \<Rightarrow> int \<Rightarrow> int \<Rightarrow> int \<Rightarrow> error + datetime" where
  "datetime_new y m d hh mm ss us =
     (if \<not> (MINYEAR \<le> y \<and> y \<le> MAXYEAR) then Inl ValueError
      else if \<not> (1 \<le> m \<and> m \<le> 12) then Inl ValueError
      else if \<not> (1 \<le> d \<and> d \<le> days_in_month y m) then Inl ValueError
      else if \<not> (0 \<le> hh \<and> hh \<le> 23) then Inl ValueError
      else if \<not> (0 \<le> mm \<and> mm \<le> 59) then Inl ValueError
      else if \<not> (0 \<le> ss \<and> ss \<le> 59) then Inl ValueError
      else if \<not> (0 \<le> us \<and> us \<le> 999999) then Inl ValueError
      else Inr \<lparr>year = y, month = m, day = d, hour = hh, minute = mm, second = ss,
                microsecond = us\<rparr>)"

definition toordinal :: "datetime \<Rightarrow> int" where
  "toordinal dt = ymd2ord (year dt) (month dt) (day dt)"

text \<open>
  A \<open>timedelta\<close> is normalised to days, seconds in \<open>[0, 86400)\<close> and microseconds
  in \<open>[0, 10\<^sup>6)\<close>; the model keeps the duration as one number of microseconds and
  reads the three fields off it.
\<close>

type_synonym timedelta = int

definition td_days :: "timedelta \<Rightarrow> int" where
  "td_days t = t div 86400000000"

definition td_seconds :: "timedelta \<Rightarrow> int" where
  "td_seconds t = (t mod 86400000000) div 1000000"

definition td_microseconds :: "timedelta \<Rightarrow> int" where
  "td_microseconds t = t mod 1000000"

definition td_check :: "int \<Rightarrow> error + timedelta" where
  "td_check t = (if 999999999 < \<bar>td_days t\<bar> then Inl OverflowError else Inr t)"

text \<open>\<open>timedelta(days, seconds, microseconds)\<close> with integer arguments.\<close>

definition timedelta_new :: "int \<Rightarrow> int \<Rightarrow> int \<Rightarrow> error + timedelta" where
  "timedelta_new d s us = td_check ((d * 86400 + s) * 1000000 + us)"

text \<open>
  \<open>timedelta(0, x)\<close> with a float \<open>x\<close> of seconds:
  \<^verbatim>\<open>
  secondsfrac, seconds = _math.modf(seconds)
  seconds = int(seconds)
  ...
  usdouble = secondsfrac * 1e6
  ...
  microseconds = round(microseconds + usdouble)
  \<close>
\<close>

definition timedelta_seconds :: "rat \<Rightarrow> error + timedelta" where
  "timedelta_seconds x =
     (case modf x of (secondsfrac, seconds) \<Rightarrow>
        let usdouble = fl (secondsfrac * 1000000);
            microseconds = round_half_even usdouble
        in td_check (seconds * 1000000 + microseconds))"

text \<open>
  \<^verbatim>\<open>
  def total_seconds(self):
      return ((self.days * 86400 + self.seconds) * 10**6 +
              self.microseconds) / 10**6
  \<close>
\<close>

definition total_seconds :: "timedelta \<Rightarrow> rat" where
  "total_seconds t =
     fl (of_int ((td_days t * 86400 + td_seconds t) * 10 ^ 6 + td_microseconds t) / 10 ^ 6)"

text \<open>\<open>datetime.__sub__\<close> for two naive datetimes.\<close>

definition datetime_sub :: "datetime \<Rightarrow> datetime \<Rightarrow> error + timedelta" where
  "datetime_sub a b =
     (let days1 = toordinal a; days2 = toordinal b;
          secs1 = second a + minute a * 60 + hour a * 3600;
          secs2 = second b + minute b * 60 + hour b * 3600
      in timedelta_new (days1 - days2) (secs1 - secs2) (microsecond a - microsecond b))"

text \<open>
  \<open>datetime.__add__\<close>:
  \<^verbatim>\<open>
  delta = timedelta(self.toordinal(), hours=self._hour, minutes=self._minute,
                    seconds=self._second, microseconds=self._microsecond)
  delta += other
  hour, rem = divmod(delta.seconds, 3600)
  minute, second = divmod(rem, 60)
  if 0 < delta.days <= _MAXORDINAL:
      return type(self).combine(date.fromordinal(delta.days),
                                time(hour, minute, second, delta.microseconds, ...))
  raise OverflowError("result out of range")
  \<close>
\<close>

definition datetime_add :: "datetime \<Rightarrow> timedelta \<Rightarrow> error + datetime" where
  "datetime_add dt other =
     (case timedelta_new (toordinal dt) (second dt + minute dt * 60 + hour dt * 3600)
             (microsecond dt) of
        Inl e \<Rightarrow> Inl e
      | Inr delta0 \<Rightarrow>
         (case td_check (delta0 + other) of
            Inl e \<Rightarrow> Inl e
          | Inr delta \<Rightarrow>
             let hh = td_seconds delta div 3600; rem = td_seconds delta mod 3600;
                 mm = rem div 60; ss = rem mod 60
             in if 0 < td_days delta \<and> td_days delta \<le> MAXORDINAL
                then (case ord2ymd (td_days delta) of (y, m, d) \<Rightarrow>
                        Inr \<lparr>year = y, month = m, day = d, hour = hh, minute = mm,
                             second = ss, microsecond = td_microseconds delta\<rparr>)
                else Inl OverflowError))"

text \<open>
  Comparison of naive datetimes is the comparison of the tuples
  \<open>(year, month, day, hour, minute, second, microsecond)\<close>.
\<close>

fun tuple_le :: "int list \<Rightarrow> int list \<Rightarrow> bool" where
  "tuple_le [] ys = True"
| "tuple_le (x # xs) [] = False"
| "tuple_le (x # xs) (y # ys) = (x < y \<or> (x = y \<and> tuple_le xs ys))"

definition datetime_tuple :: "datetime \<Rightarrow> int list" where
  "datetime_tuple dt =
     [year dt, month dt, day dt, hour dt, minute dt, second dt, microsecond dt]"

definition datetime_le :: "datetime \<Rightarrow> datetime \<Rightarrow> bool" where
  "datetime_le a b = tuple_le (datetime_tuple a) (datetime_tuple b)"

text \<open>
  \<open>str(dt)\<close> is \<open>dt.isoformat(sep=' ')\<close>:
  \<^verbatim>\<open>
  s = ("%04d-%02d-%02d%c" % (self._year, self._month, self._day, sep) +
       _format_time(self._hour, self._minute, self._second, self._microsecond, timespec))
  \<close>
  where \<open>_format_time\<close> with \<open>timespec='auto'\<close> takes \<open>{:02d}:{:02d}:{:02d}.{:06d}\<close>
  if the microsecond is not zero and \<open>{:02d}:{:02d}:{:02d}\<close> otherwise.
\<close>

definition format_time :: "int \<Rightarrow> int \<Rightarrow> int \<Rightarrow> int \<Rightarrow> string" where
  "format_time hh mm ss us =
     format_d 2 hh @ '':'' @ format_d 2 mm @ '':'' @ format_d 2 ss @
     (if us \<noteq> 0 then ''.'' @ format_d 6 us else [])"

definition datetime_str :: "datetime \<Rightarrow> string" where
  "datetime_str dt =
     format_d 4 (year dt) @ ''-'' @ format_d 2 (month dt) @ ''-'' @ format_d 2 (day dt) @
     '' '' @ format_time (hour dt) (minute dt) (second dt) (microsecond dt)"

subsection \<open>\<open>datetime.strptime(ts, '%Y-%m-%d %H:%M:%S')\<close>\<close>

text \<open>
  \<open>_strptime\<close> compiles the format into the regular expression
  \<^verbatim>\<open>
  (?P<Y>\d\d\d\d)-(?P<m>1[0-2]|0[1-9]|[1-9])-(?P<d>3[0-1]|[1-2]\d|0[1-9]|[1-9]| [1-9])
  \s+(?P<H>2[0-3]|[0-1]\d|\d):(?P<M>[0-5]\d|\d):(?P<S>6[0-1]|[0-5]\d|\d)
  \<close>
  matches it at the start of the string and refuses a string with unconverted data
  left. The model has the three kinds of item this expression is made of: a literal
  character, a group of alternatives (each one a sequence of character classes,
  tried in order), and \<open>\s+\<close>. A character is a code point below 256; \<open>\s\<close>
  matches the ten ASCII blanks and, as Python does on \<open>str\<close>, U+0085 and U+00A0;
  \<open>\d\<close> matches the ten ASCII digits, the only decimal digits below 256.
\<close>

datatype item = Lit char | Group "string list list" | Spaces

definition is_space :: "char \<Rightarrow> bool" where
  "is_space c = (c \<in> set [CHR 0x09, CHR 0x0A, CHR 0x0B, CHR 0x0C, CHR 0x0D,
                         CHR 0x1C, CHR 0x1D, CHR 0x1E, CHR 0x1F, CHR '' '',
                         CHR 0x85, CHR 0xA0])"

definition dig :: string where "dig = ''0123456789''"
definition dig1 :: string where "dig1 = ''123456789''"

definition format_regex :: "item list" where
  "format_regex =
     [Group [[dig, dig, dig, dig]], Lit CHR ''-'',
      Group [[''1'', ''012''], [''0'', dig1], [dig1]], Lit CHR ''-'',
      Group [[''3'', ''01''], [''12'', dig], [''0'', dig1], [dig1], ['' '', dig1]],
      Spaces,
      Group [[''2'', ''0123''], [''01'', dig], [dig]], Lit CHR '':'',
      Group [[''012345'', dig], [dig]], Lit CHR '':'',
      Group [[''6'', ''01''], [''012345'', dig], [dig]]]"

text \<open>One alternative against the start of the input: the text matched and the rest.\<close>

fun match_classes :: "string list \<Rightarrow> string \<Rightarrow> (string \<times> string) option" where
  "match_classes [] s = Some ([], s)"
| "match_classes (c # cs) [] = None"
| "match_classes (c # cs) (x # xs) =
     (if x \<in> set c
      then (case match_classes cs xs of None \<Rightarrow> None | Some (m, r) \<Rightarrow> Some (x # m, r))
      else None)"

fun first_match :: "'a option list \<Rightarrow> 'a option" where
  "first_match [] = None"
| "first_match (None # xs) = first_match xs"
| "first_match (Some x # xs) = Some x"

text \<open>What can follow \<open>\s+\<close>: the input less \<open>k \<ge> 1\<close> leading blanks, the longest run first.\<close>

definition after_spaces :: "string \<Rightarrow> string list" where
  "after_spaces s = map (\<lambda>k. drop k s) (rev [1 ..< Suc (length (takeWhile is_space s))])"

text \<open>The backtracking match: the captured groups in order, and the unmatched rest.\<close>

fun match_items :: "item list \<Rightarrow> string \<Rightarrow> (string list \<times> string) option" where
  "match_items [] s = Some ([], s)"
| "match_items (Lit c # its) s =
     (case s of [] \<Rightarrow> None | x # xs \<Rightarrow> if x = c then match_items its xs else None)"
| "match_items (Group alts # its) s =
     first_match (map (\<lambda>alt.
        case match_classes alt s of
          None \<Rightarrow> None
        | Some (m, r) \<Rightarrow>
           (case match_items its r of None \<Rightarrow> None | Some (caps, r') \<Rightarrow> Some (m # caps, r')))
       alts)"
| "match_items (Spaces # its) s = first_match (map (match_items its) (after_spaces s))"

text \<open>\<open>int(s)\<close> of a captured group: blanks around the digits are dropped.\<close>

definition digit_value :: "char \<Rightarrow> int" where
  "digit_value c = int (of_char c) - 48"

definition py_int :: "string \<Rightarrow> int" where
  "py_int s = foldl (\<lambda>a c. 10 * a + digit_value c) 0 (filter (\<lambda>c. \<not> is_space c) s)"

definition strptime :: "string \<Rightarrow> error + datetime" where
  "strptime data_string =
     (case match_items format_regex data_string of
        None \<Rightarrow> Inl ValueError
      | Some (found, rest) \<Rightarrow>
         if rest \<noteq> [] then Inl ValueError
         else (case found of
                 [Y, m, d, H, M, S] \<Rightarrow>
                   datetime_new (py_int Y) (py_int m) (py_int d) (py_int H) (py_int M) (py_int S) 0
               | _ \<Rightarrow> Inl ValueError))"

subsection \<open>\<open>RandomData\<close>\<close>

text \<open>The values a \<open>RandomData\<close> holds as limits or as its drawn value.\<close>

datatype pyval = PyInt int | PyStr string | PyDatetime datetime | PyNone

text \<open>
  \<^verbatim>\<open>
  def rand_ts(min, max):
      def str_to_ts(ts):
          return datetime.datetime.strptime(ts, '%Y-%m-%d %H:%M:%S')
      min = str_to_ts(min)
      max = str_to_ts(max)
      delta = (max - min).total_seconds()
      delta_rand = random.uniform(0, delta)
      return min + datetime.timedelta(0, delta_rand)
  \<close>
\<close>

definition str_to_ts :: "string \<Rightarrow> error + datetime" where
  "str_to_ts ts = strptime ts"

definition rand_ts :: "string \<Rightarrow> string \<Rightarrow> rng \<Rightarrow> error + (datetime \<times> rng)" where
  "rand_ts smin smax g =
     (case str_to_ts smin of Inl e \<Rightarrow> Inl e | Inr tmin \<Rightarrow>
     (case str_to_ts smax of Inl e \<Rightarrow> Inl e | Inr tmax \<Rightarrow>
     (case datetime_sub tmax tmin of Inl e \<Rightarrow> Inl e | Inr td \<Rightarrow>
       let delta = total_seconds td in
     (case uniform 0 delta g of (delta_rand, g') \<Rightarrow>
     (case timedelta_seconds delta_rand of Inl e \<Rightarrow> Inl e | Inr off \<Rightarrow>
     (case datetime_add tmin off of Inl e \<Rightarrow> Inl e | Inr v \<Rightarrow> Inr (v, g')))))))"

text \<open>
  \<^verbatim>\<open>
  if value_type == 'int':
      return rand_int(min, max)
  elif value_type == 'ts':
      return rand_ts(min, max)
  \<close>
  Any other type tag falls through and returns \<open>None\<close>. The limits are Python
  values, and the callee checks them in the order it reads them:
  \<open>randrange\<close> converts \<open>start\<close>, then \<open>stop\<close> (a \<open>str\<close> is refused with
  \<open>ValueError\<close>, a datetime or \<open>None\<close> as \<open>start\<close> with \<open>TypeError\<close>; this is the
  behaviour up to Python 3.11), and \<open>randrange(start, None)\<close> draws below \<open>start\<close>;
  \<open>strptime\<close> refuses an argument that is not a \<open>str\<close> with \<open>TypeError\<close>.
\<close>

definition rand_value :: "string \<Rightarrow> pyval \<Rightarrow> pyval \<Rightarrow> rng \<Rightarrow> error + (pyval \<times> rng)" where
  "rand_value value_type lo hi g =
     (if value_type = ''int'' then
        (case lo of
           PyInt a \<Rightarrow>
             (case hi of
                PyInt b \<Rightarrow>
                  (case rand_int a b g of Inl e \<Rightarrow> Inl e | Inr (v, g') \<Rightarrow> Inr (PyInt v, g'))
              | PyNone \<Rightarrow>
                  (if 0 < a then (case randbelow a g of (k, g') \<Rightarrow> Inr (PyInt k, g'))
                   else Inl ValueError)
              | PyStr s \<Rightarrow> Inl ValueError
              | PyDatetime t \<Rightarrow> Inl TypeError)
         | PyStr s \<Rightarrow> Inl ValueError
         | PyDatetime t \<Rightarrow> Inl TypeError
         | PyNone \<Rightarrow> Inl TypeError)
      else if value_type = ''ts'' then
        (case lo of
           PyStr a \<Rightarrow>
             (case hi of
                PyStr b \<Rightarrow>
                  (case rand_ts a b g of Inl e \<Rightarrow> Inl e | Inr (v, g') \<Rightarrow> Inr (PyDatetime v, g'))
              | _ \<Rightarrow> (case str_to_ts a of Inl e \<Rightarrow> Inl e | Inr t \<Rightarrow> Inl TypeError))
         | _ \<Rightarrow> Inl TypeError)
      else Inr (PyNone, g))"

record RandomData =
  name :: string
  min_v :: pyval
  max_v :: pyval
  value_v :: pyval

text \<open>\<open>RandomData.__init__(self, name, type, min, max)\<close>\<close>

definition RandomData_init ::
  "string \<Rightarrow> string \<Rightarrow> pyval \<Rightarrow> pyval \<Rightarrow> rng \<Rightarrow> error + (RandomData \<times> rng)" where
  "RandomData_init nm ty lo hi g =
     (case rand_value ty lo hi g of
        Inl e \<Rightarrow> Inl e
      | Inr (v, g') \<Rightarrow> Inr (\<lparr>name = nm, min_v = lo, max_v = hi, value_v = v\<rparr>, g'))"

text \<open>\<open>str(value)\<close>\<close>

definition py_str :: "pyval \<Rightarrow> string" where
  "py_str v = (case v of PyInt i \<Rightarrow> str_int i | PyStr s \<Rightarrow> s
                | PyDatetime dt \<Rightarrow> datetime_str dt | PyNone \<Rightarrow> ''None'')"

subsection \<open>\<open>DataString\<close>\<close>

text \<open>
  A \<open>DataString\<close> holds the tuple \<open>self.string\<close> of seven \<open>RandomData\<close>; the
  elements of a tuple display are evaluated from left to right, each on the random
  source the one before has left.
\<close>

type_synonym DataString = "RandomData list"

fun sequence :: "(rng \<Rightarrow> error + ('a \<times> rng)) list \<Rightarrow> rng \<Rightarrow> error + ('a list \<times> rng)" where
  "sequence [] g = Inr ([], g)"
| "sequence (f # fs) g =
     (case f g of
        Inl e \<Rightarrow> Inl e
      | Inr (x, g') \<Rightarrow>
         (case sequence fs g' of Inl e \<Rightarrow> Inl e | Inr (xs, g'') \<Rightarrow> Inr (x # xs, g'')))"

definition DataString_init :: "rng \<Rightarrow> error + (DataString \<times> rng)" where
  "DataString_init =
     sequence
       [RandomData_init ''start_page'' ''int'' (PyInt 1) (PyInt 1000000000),
        RandomData_init ''user'' ''int'' (PyInt 1) (PyInt 100000000),
        RandomData_init ''ts'' ''ts'' (PyStr ''2005-01-01 23:56:42'') (PyStr ''2016-01-01 10:50:00''),
        RandomData_init ''depth'' ''int'' (PyInt 1) (PyInt 50),
        RandomData_init ''duration'' ''int'' (PyInt 100) (PyInt 10000),
        RandomData_init ''transmit'' ''int'' (PyInt 100000) (PyInt 1000000000),
        RandomData_init ''type'' ''int'' (PyInt 1) (PyInt 5)]"

definition headers :: "DataString \<Rightarrow> string" where
  "headers d = join '','' (map name d)"

definition values_v :: "DataString \<Rightarrow> string" where
  "values_v d = join '','' (map (\<lambda>data. py_str (value_v data)) d)"

subsection \<open>The two generators\<close>

text \<open>
  The state of a run: the files written so far, by name, and the random source.
  Opening a file for writing always succeeds in the model. The \<open>measure_time\<close>
  decorator only logs around the call; the model of a decorated function is the
  model of its body.
\<close>

record world =
  files :: "string \<rightharpoonup> string"
  random :: rng

text \<open>\<open>range(a, b)\<close>\<close>

definition range_v :: "int \<Rightarrow> int \<Rightarrow> int list" where
  "range_v a b = [a .. b - 1]"

text \<open>
  \<^verbatim>\<open>
  with open(file, 'w') as output:
      output.write(DataString().headers())
      for _ in range(1, strings_to_output):
          output.write('\n' + DataString().values())
  \<close>
  The loop carries what has been written and the random source.
\<close>

fun csv_loop :: "int list \<Rightarrow> string \<times> rng \<Rightarrow> error + (string \<times> rng)" where
  "csv_loop [] (output, g) = Inr (output, g)"
| "csv_loop (i # is) (output, g) =
     (case DataString_init g of
        Inl e \<Rightarrow> Inl e
      | Inr (d, g') \<Rightarrow> csv_loop is (output @ ([newline] @ values_v d), g'))"

definition generate_csv :: "string \<Rightarrow> int \<Rightarrow> world \<Rightarrow> error + world" where
  "generate_csv file data_rows w =
     (let strings_to_output = data_rows in
      case DataString_init (random w) of
        Inl e \<Rightarrow> Inl e
      | Inr (d, g) \<Rightarrow>
         (case csv_loop (range_v 1 strings_to_output) (headers d, g) of
            Inl e \<Rightarrow> Inl e
          | Inr (output, g') \<Rightarrow> Inr (w\<lparr>files := (files w)(file \<mapsto> output), random := g'\<rparr>)))"

text \<open>An \<open>xml.etree\<close> element: tag, text and children (no attributes, no tail here).\<close>

datatype element = Element (tag: string) (text_v: "string option") (children: "element list")

text \<open>\<open>ET.SubElement(parent, tag)\<close> appends a new child; the model returns the parent.\<close>

definition append_child :: "element \<Rightarrow> element \<Rightarrow> element" where
  "append_child parent e = Element (tag parent) (text_v parent) (children parent @ [e])"

text \<open>
  \<^verbatim>\<open>
  row = ET.SubElement(root, 'row')
  for node in DataString().string:
      ET.SubElement(row, node.name).text = str(node.value)
  \<close>
\<close>

definition row_element :: "DataString \<Rightarrow> element" where
  "row_element d =
     foldl (\<lambda>row node. append_child row (Element (name node) (Some (py_str (value_v node))) []))
       (Element ''row'' None []) d"

fun xml_loop :: "int list \<Rightarrow> element \<times> rng \<Rightarrow> error + (element \<times> rng)" where
  "xml_loop [] (root_e, g) = Inr (root_e, g)"
| "xml_loop (i # is) (root_e, g) =
     (case DataString_init g of
        Inl e \<Rightarrow> Inl e
      | Inr (d, g') \<Rightarrow> xml_loop is (append_child root_e (row_element d), g'))"

text \<open>The tree \<open>generate_xml\<close> has built when it reaches \<open>tree.write(file)\<close>.\<close>

definition build_tree :: "int \<Rightarrow> rng \<Rightarrow> error + (element \<times> rng)" where
  "build_tree data_rows g =
     (let strings_to_output = data_rows in
      xml_loop (range_v 1 strings_to_output) (Element ''root'' None [], g))"

text \<open>
  \<open>ElementTree.write(file)\<close> with its defaults writes no declaration and calls
  \<open>_serialize_xml\<close>:
  \<^verbatim>\<open>
  write("<" + tag)
  if text or len(elem) or not short_empty_elements:
      write(">")
      if text:
          write(_escape_cdata(text))
      for e in elem:
          _serialize_xml(write, e, ...)
      write("</" + tag + ">")
  else:
      write(" />")
  \<close>
\<close>

definition replace :: "char \<Rightarrow> string \<Rightarrow> string \<Rightarrow> string" where
  "replace c new s = concat (map (\<lambda>x. if x = c then new else [x]) s)"

definition escape_cdata :: "string \<Rightarrow> string" where
  "escape_cdata s =
     replace CHR ''>'' ''&gt;'' (replace CHR ''<'' ''&lt;'' (replace CHR ''&'' ''&amp;'' s))"

fun serialize_xml :: "element \<Rightarrow> string" where
  "serialize_xml (Element tg txt es) =
     (let t = (case txt of None \<Rightarrow> [] | Some s \<Rightarrow> s) in
      ''<'' @ tg @
      (if t \<noteq> [] \<or> es \<noteq> []
       then ''>'' @ escape_cdata t @ concat (map serialize_xml es) @ ''</'' @ tg @ ''>''
       else '' />''))"

text \<open>
  \<open>tree.write(file)\<close> opens the file with \<open>encoding="us-ascii"\<close> and
  \<open>errors="xmlcharrefreplace"\<close>: a character that is not ASCII is written as a
  character reference.
\<close>

definition ascii_xmlcharrefreplace :: "string \<Rightarrow> string" where
  "ascii_xmlcharrefreplace s =
     concat (map (\<lambda>c. if of_char c < (128 :: nat) then [c]
                        else ''&#'' @ str_nat (of_char c) @ '';'') s)"

text \<open>
  \<open>open(file, 'r').read()\<close> reads with universal newlines: \<open>\r\n\<close> and a lone
  \<open>\r\<close> come back as \<open>\n\<close>. Writing in text mode leaves \<open>\n\<close> as it is (the
  line separator of the platform is taken to be \<open>\n\<close>).
\<close>

fun universal_newlines :: "string \<Rightarrow> string" where
  "universal_newlines [] = []"
| "universal_newlines [c] = (if c = CHR 0x0D then [newline] else [c])"
| "universal_newlines (c # d # cs) =
     (if c = CHR 0x0D
      then (if d = newline then newline # universal_newlines cs
            else newline # universal_newlines (d # cs))
      else c # universal_newlines (d # cs))"

definition prologue :: string where
  \<open>prologue = ''<?xml version="1.0" encoding="UTF-8"?>''\<close>

text \<open>
  \<^verbatim>\<open>
  tree = ET.ElementTree(root)
  tree.write(file)
  with open(file, 'r') as original:
      data = original.read()
  with open(file, 'w') as modified:
      modified.write('<?xml version="1.0" encoding="UTF-8"?>\n' + data)
  \<close>
  Reading a file that is not there raises; the model has no error for it, since the
  file has just been written.
\<close>

definition generate_xml :: "string \<Rightarrow> int \<Rightarrow> world \<Rightarrow> error + world" where
  "generate_xml file data_rows w =
     (case build_tree data_rows (random w) of
        Inl e \<Rightarrow> Inl e
      | Inr (root_e, g) \<Rightarrow>
         let w1 = w\<lparr>files := (files w)(file \<mapsto> ascii_xmlcharrefreplace (serialize_xml root_e)),
                    random := g\<rparr>;
             data = (case files w1 file of None \<Rightarrow> [] | Some s \<Rightarrow> universal_newlines s)
         in Inr (w1\<lparr>files := (files w1)(file \<mapsto> prologue @ [newline] @ data)\<rparr>))"

subsection \<open>Notions used to state the properties\<close>

text \<open>
  A datetime the constructor accepts, and its position on the time line: the number
  of microseconds since the start of day 0, the day before 1 January of year 1.
\<close>

definition valid_datetime :: "datetime \<Rightarrow> bool" where
  "valid_datetime dt =
     (MINYEAR \<le> year dt \<and> year dt \<le> MAXYEAR \<and> 1 \<le> month dt \<and> month dt \<le> 12 \<and>
      1 \<le> day dt \<and> day dt \<le> days_in_month (year dt) (month dt) \<and>
      0 \<le> hour dt \<and> hour dt \<le> 23 \<and> 0 \<le> minute dt \<and> minute dt \<le> 59 \<and>
      0 \<le> second dt \<and> second dt \<le> 59 \<and> 0 \<le> microsecond dt \<and> microsecond dt \<le> 999999)"

definition datetime_us :: "datetime \<Rightarrow> int" where
  "datetime_us dt =
     (toordinal dt * 86400 + (second dt + minute dt * 60 + hour dt * 3600)) * 1000000
       + microsecond dt"

text \<open>A fixed random source for the examples.\<close>

definition sample_rng :: rng where
  "sample_rng = (\<lambda>i. 1234567890123456 + 977 * int i)"

text \<open>The last step of \<open>_ord2ymd\<close>: month and day from the offset in the year.\<close>

definition month_day :: "bool \<Rightarrow> int \<Rightarrow> int \<times> int" where
  "month_day leapyear n =
     (let m = (n + 50) div 32;
          preceding = DAYS_BEFORE_MONTH ! nat m + (if 2 < m \<and> leapyear then 1 else 0)
      in if n < preceding
         then let m' = m - 1;
                  preceding' = preceding -
                    (DAYS_IN_MONTH ! nat m' + (if m' = 2 \<and> leapyear then 1 else 0))
              in (m', n - preceding' + 1)
         else (m, n - preceding + 1))"

text \<open>The names of the seven fields, in the order of declaration.\<close>

definition field_names :: "string list" where
  "field_names = [''start_page'', ''user'', ''ts'', ''depth'', ''duration'', ''transmit'', ''type'']"

text \<open>
  The characters a formatted value is made of, and a field whose formatted value
  is not empty and made of them only.
\<close>

definition value_chars :: "char set" where
  "value_chars = set ''0123456789-: .''"

definition printable :: "RandomData \<Rightarrow> bool" where
  "printable x = (py_str (value_v x) \<noteq> [] \<and> set (py_str (value_v x)) \<subseteq> value_chars)"

text \<open>
  The first \<open>n\<close> records built one after the other from a random source, each on
  what the one before has left of it.
\<close>

fun records :: "nat \<Rightarrow> rng \<Rightarrow> DataString list" where
  "records 0 g = []"
| "records (Suc n) g =
     (case DataString_init g of Inl e \<Rightarrow> [] | Inr (d, g') \<Rightarrow> d # records n g')"

text \<open>
  Text that the ASCII encoder and the reader leave as it is, and an element made of
  such text.
\<close>

definition ascii_text :: "string \<Rightarrow> bool" where
  "ascii_text s = (\<forall>c \<in> set s. of_char c < (128 :: nat) \<and> c \<noteq> CHR 0x0D)"

fun plain_element :: "element \<Rightarrow> bool" where
  "plain_element (Element tg tx es) =
     (ascii_text tg \<and> (case tx of None \<Rightarrow> True | Some s \<Rightarrow> ascii_text s)
      \<and> list_all plain_element es)"

section \<open>Properties\<close>

subsection \<open>Rounding\<close>

lemma round_half_even_of_int: "round_half_even (of_int n) = n"
  by (simp add: round_half_even_def)

lemma round_half_even_le:
  assumes "x \<le> of_int n"
  shows "round_half_even x \<le> n"
proof -
  have f: "\<lfloor>x\<rfloor> \<le> n" using assms by (simp add: floor_le_iff)
  show ?thesis
  proof (cases "x = of_int \<lfloor>x\<rfloor>")
    case True
    then show ?thesis using f by (simp add: round_half_even_def Let_def)
  next
    case False
    then have "of_int \<lfloor>x\<rfloor> < x" by (metis of_int_floor_le order_le_less)
    with assms have "of_int \<lfloor>x\<rfloor> < (of_int n :: rat)" by simp
    then have "\<lfloor>x\<rfloor> < n" by simp
    then show ?thesis by (simp add: round_half_even_def Let_def)
  qed
qed

lemma round_half_even_ge:
  assumes "of_int n \<le> x"
  shows "n \<le> round_half_even x"
proof -
  have "n \<le> \<lfloor>x\<rfloor>" using assms by (simp add: le_floor_iff)
  then show ?thesis by (simp add: round_half_even_def Let_def)
qed

lemma float_exponent_le:
  assumes "x \<noteq> 0"
  shows "2 powi float_exponent x \<le> \<bar>x\<bar>"
proof -
  obtain p q where pq: "quotient_of \<bar>x\<bar> = (p, q)" by (cases "quotient_of \<bar>x\<bar>")
  then have q: "0 < q" by (rule quotient_of_denom_pos)
  from pq have x: "\<bar>x\<bar> = of_int p / of_int q" by (rule quotient_of_div)
  from assms have "0 < \<bar>x\<bar>" by simp
  with x q have p: "0 < p" by (simp add: zero_less_divide_iff)
  let ?e = "bitlen p - bitlen q"
  show ?thesis
  proof (cases "2 powi ?e \<le> \<bar>x\<bar>")
    case True
    then show ?thesis using pq by (simp add: float_exponent_def Let_def)
  next
    case False
    from bitlen_bounds [OF p] have bp: "2 ^ nat (bitlen p - 1) \<le> p" by simp
    from bitlen_bounds [OF q] have bq: "q < 2 ^ nat (bitlen q)" by simp
    from p have bp1: "1 \<le> bitlen p" by (auto simp: bitlen_alt_def)
    have bq0: "0 \<le> bitlen q" by (rule bitlen_nonneg)
    have "?e - 1 = (bitlen p - 1) - bitlen q" by simp
    then have "(2::rat) powi (?e - 1) = 2 powi ((bitlen p - 1) - bitlen q)" by (simp only:)
    also have "\<dots> = 2 powi (bitlen p - 1) / 2 powi (bitlen q)"
      by (rule power_int_diff) simp
    also have "\<dots> = 2 ^ nat (bitlen p - 1) / 2 ^ nat (bitlen q)"
      using bp1 bq0 by (simp add: power_int_def)
    also have "\<dots> \<le> of_int p / 2 ^ nat (bitlen q)"
    proof -
      have "(of_int (2 ^ nat (bitlen p - 1)) :: rat) \<le> of_int p" using bp by (simp only: of_int_le_iff)
      then show ?thesis by (simp add: divide_right_mono)
    qed
    also have "\<dots> \<le> of_int p / of_int q"
    proof -
      have "(of_int q :: rat) \<le> of_int (2 ^ nat (bitlen q))" using bq by (simp only: of_int_le_iff)
      then have "(of_int q :: rat) \<le> 2 ^ nat (bitlen q)" by simp
      then show ?thesis using p q by (intro divide_left_mono) auto
    qed
    finally have "(2::rat) powi (?e - 1) \<le> \<bar>x\<bar>" using x by simp
    then show ?thesis using pq False by (simp add: float_exponent_def Let_def)
  qed
qed

lemma float_exponent_small:
  assumes "x \<noteq> 0" and "\<bar>x\<bar> < 2 ^ 53"
  shows "float_exponent x \<le> 52"
proof -
  have "(2::rat) powi float_exponent x < 2 powi 53"
    using float_exponent_le [OF assms(1)] assms(2) by simp
  then have "float_exponent x < 53"
    by (rule power_int_le_imp_less_exp [rotated]) simp_all
  then show ?thesis by simp
qed

text \<open>In the range below \<open>2^53\<close> rounding is a rounding to a multiple of \<open>2^-k\<close>.\<close>

lemma fl_scaled:
  assumes "x \<noteq> 0" and "\<bar>x\<bar> < 2 ^ 53"
  obtains k :: nat where "fl x = of_int (round_half_even (x * 2 ^ k)) / 2 ^ k"
proof -
  let ?e = "float_exponent x"
  have e: "?e \<le> 52" using assms by (rule float_exponent_small)
  have "(2::rat) powi (?e - 52) = inverse (2 ^ nat (52 - ?e))"
    using e by (simp add: power_int_def power_one_over inverse_eq_divide)
  then have "fl x = of_int (round_half_even (x * 2 ^ nat (52 - ?e))) / 2 ^ nat (52 - ?e)"
    using assms(1) by (simp add: fl_def Let_def divide_inverse)
  then show ?thesis by (rule that)
qed

lemma fl_le_int:
  assumes "\<bar>x\<bar> < 2 ^ 53" and "x \<le> of_int n"
  shows "fl x \<le> of_int n"
proof (cases "x = 0")
  case True
  then show ?thesis using assms by (simp add: fl_def)
next
  case False
  then obtain k :: nat where k: "fl x = of_int (round_half_even (x * 2 ^ k)) / 2 ^ k"
    using assms(1) by (rule fl_scaled)
  have "x * 2 ^ k \<le> of_int (n * 2 ^ k)" using assms(2) by simp
  then have "round_half_even (x * 2 ^ k) \<le> n * 2 ^ k" by (rule round_half_even_le)
  then have "(of_int (round_half_even (x * 2 ^ k)) :: rat) \<le> of_int (n * 2 ^ k)"
    by (simp only: of_int_le_iff)
  then show ?thesis using k by (simp add: divide_le_eq)
qed

lemma fl_ge_int:
  assumes "\<bar>x\<bar> < 2 ^ 53" and "of_int n \<le> x"
  shows "of_int n \<le> fl x"
proof (cases "x = 0")
  case True
  then show ?thesis using assms by (simp add: fl_def)
next
  case False
  then obtain k :: nat where k: "fl x = of_int (round_half_even (x * 2 ^ k)) / 2 ^ k"
    using assms(1) by (rule fl_scaled)
  have "of_int (n * 2 ^ k) \<le> x * 2 ^ k" using assms(2) by simp
  then have "n * 2 ^ k \<le> round_half_even (x * 2 ^ k)" by (rule round_half_even_ge)
  then have "(of_int (n * 2 ^ k) :: rat) \<le> of_int (round_half_even (x * 2 ^ k))"
    by (simp only: of_int_le_iff)
  then show ?thesis using k by (simp add: le_divide_eq)
qed

lemma fl_of_int:
  assumes "\<bar>n\<bar> < 2 ^ 53"
  shows "fl (of_int n) = of_int n"
proof -
  have "\<bar>of_int n :: rat\<bar> < 2 ^ 53"
  proof -
    have "(of_int \<bar>n\<bar> :: rat) < of_int (2 ^ 53)" using assms by (simp only: of_int_less_iff)
    then show ?thesis by simp
  qed
  then have "fl (of_int n) \<le> of_int n" "of_int n \<le> fl (of_int n)"
    by (simp_all add: fl_le_int fl_ge_int)
  then show ?thesis by simp
qed

subsection \<open>Calendar arithmetic\<close>

lemma div_step:
  fixes y k :: int
  assumes "0 < k"
  shows "y div k = (y - 1) div k + (if y mod k = 0 then 1 else 0)"
proof -
  define q where "q = (y - 1) div k"
  define r where "r = (y - 1) mod k"
  have r: "0 \<le> r" "r < k" using assms by (simp_all add: r_def)
  have y: "y = k * q + (r + 1)" by (simp add: q_def r_def)
  show ?thesis
  proof (cases "r + 1 < k")
    case True
    then have "y div k = q" "y mod k = r + 1"
      using y r by (auto intro: int_div_pos_eq int_mod_pos_eq)
    then show ?thesis using r by (simp add: q_def)
  next
    case False
    with r have "r + 1 = k" by simp
    with y have y': "y = k * (q + 1) + 0" by (simp add: algebra_simps)
    have "y div k = q + 1" "y mod k = 0"
      using y' assms by (auto intro: int_div_pos_eq int_mod_pos_eq)
    then show ?thesis by (simp add: q_def)
  qed
qed

lemma mod_100_4: "(y::int) mod 100 = 0 \<Longrightarrow> y mod 4 = 0"
  using mod_mod_cancel [of 4 100 y] by simp

lemma mod_400_100: "(y::int) mod 400 = 0 \<Longrightarrow> y mod 100 = 0"
  using mod_mod_cancel [of 100 400 y] by simp

lemma dby_step:
  "days_before_year (y + 1) = days_before_year y + 365 + (if is_leap y then 1 else 0)"
proof -
  define a4 b4 a100 b100 a400 b400
    where "a4 = y div 4" and "b4 = (y - 1) div 4"
      and "a100 = y div 100" and "b100 = (y - 1) div 100"
      and "a400 = y div 400" and "b400 = (y - 1) div 400"
  define p4 p100 p400
    where "p4 \<longleftrightarrow> y mod 4 = 0" and "p100 \<longleftrightarrow> y mod 100 = 0" and "p400 \<longleftrightarrow> y mod 400 = 0"
  have s4: "a4 = b4 + (if p4 then 1 else 0)"
    unfolding a4_def b4_def p4_def by (rule div_step) simp
  have s100: "a100 = b100 + (if p100 then 1 else 0)"
    unfolding a100_def b100_def p100_def by (rule div_step) simp
  have s400: "a400 = b400 + (if p400 then 1 else 0)"
    unfolding a400_def b400_def p400_def by (rule div_step) simp
  have i1: "p100 \<Longrightarrow> p4" unfolding p4_def p100_def by (rule mod_100_4)
  have i2: "p400 \<Longrightarrow> p100" unfolding p400_def p100_def by (rule mod_400_100)
  have leap: "is_leap y \<longleftrightarrow> p4 \<and> (\<not> p100 \<or> p400)"
    by (simp only: is_leap_def p4_def p100_def p400_def)
  have e1: "days_before_year (y + 1) = y * 365 + a4 - a100 + a400"
    by (simp only: days_before_year_def Let_def a4_def a100_def a400_def add_diff_cancel_right')
  have e0: "days_before_year y = (y - 1) * 365 + b4 - b100 + b400"
    by (simp only: days_before_year_def Let_def b4_def b100_def b400_def)
  have "a4 - a100 + a400 = b4 - b100 + b400 + (if is_leap y then 1 else 0)"
    using i1 i2 by (cases p4; cases p100; cases p400) (simp_all only: s4 s100 s400 leap, simp_all)
  with e1 e0 show ?thesis by (simp only: algebra_simps)
qed

lemma dby_mono: "y \<le> z \<Longrightarrow> days_before_year y \<le> days_before_year z"
proof (induction z rule: int_ge_induct)
  case base
  show ?case by (rule order_refl)
next
  case (step i)
  have "days_before_year i \<le> days_before_year (i + 1)"
    by (simp only: dby_step) simp
  with step.IH show ?case by (rule order_trans)
qed

lemma dby_1: "days_before_year 1 = 0"
  by (simp add: days_before_year_def)

lemma dby_10000: "days_before_year 10000 = 3652059"
  by (simp add: days_before_year_def)

lemma month_cases:
  assumes "1 \<le> m" and "m \<le> 12"
  shows "m = 1 \<or> m = 2 \<or> m = 3 \<or> m = 4 \<or> m = 5 \<or> m = 6 \<or> m = 7 \<or> m = 8 \<or> m = 9
    \<or> m = 10 \<or> m = 11 \<or> m = (12::int)"
  using assms by arith

lemma dbm_next:
  assumes "1 \<le> m" and "m \<le> 11"
  shows "days_before_month y (m + 1) = days_before_month y m + days_in_month y m"
proof -
  from assms have "m = 1 \<or> m = 2 \<or> m = 3 \<or> m = 4 \<or> m = 5 \<or> m = 6 \<or> m = 7 \<or> m = 8 \<or> m = 9
    \<or> m = 10 \<or> m = 11" by arith
  then show ?thesis
    by (elim disjE)
      (simp_all add: days_before_month_def days_in_month_def DAYS_BEFORE_MONTH_def
        DAYS_IN_MONTH_def)
qed

lemma dim_pos:
  assumes "1 \<le> m" and "m \<le> 12"
  shows "28 \<le> days_in_month y m \<and> days_in_month y m \<le> 31"
  using month_cases [OF assms]
  by (elim disjE) (simp_all add: days_in_month_def DAYS_IN_MONTH_def)

lemma dbm_1: "days_before_month y 1 = 0"
  by (simp add: days_before_month_def DAYS_BEFORE_MONTH_def)

lemma dbm_12: "days_before_month y 12 + days_in_month y 12 = 365 + (if is_leap y then 1 else 0)"
  by (simp add: days_before_month_def days_in_month_def DAYS_BEFORE_MONTH_def DAYS_IN_MONTH_def)

lemma dbm_mono:
  assumes "1 \<le> m" and "m \<le> m'" and "m' \<le> 12"
  shows "days_before_month y m \<le> days_before_month y m'"
  using assms(2,1,3)
proof (induction m' rule: int_ge_induct)
  case base
  show ?case by simp
next
  case (step i)
  then have "days_before_month y (i + 1) = days_before_month y i + days_in_month y i"
    by (intro dbm_next) simp_all
  moreover from step have "28 \<le> days_in_month y i" using dim_pos [of i y] by simp
  ultimately show ?case using step by simp
qed

lemma dbm_day_le:
  assumes "1 \<le> m" and "m \<le> 12" and "d \<le> days_in_month y m"
  shows "days_before_month y m + d \<le> 365 + (if is_leap y then 1 else 0)"
proof -
  have "days_before_month y m + days_in_month y m \<le> days_before_month y 12 + days_in_month y 12"
  proof (cases "m = 12")
    case True
    then show ?thesis by simp
  next
    case False
    with assms have m: "m \<le> 11" by simp
    then have "days_before_month y m + days_in_month y m = days_before_month y (m + 1)"
      using assms by (simp add: dbm_next)
    also have "\<dots> \<le> days_before_month y 12" using assms m by (intro dbm_mono) simp_all
    also have "\<dots> \<le> days_before_month y 12 + days_in_month y 12"
      using dim_pos [of 12 y] by simp
    finally show ?thesis .
  qed
  with assms(3) show ?thesis by (simp only: dbm_12)
qed

lemma dbm_nonneg:
  assumes "1 \<le> m" and "m \<le> 12"
  shows "0 \<le> days_before_month y m"
  using dbm_mono [of 1 m y] assms by (simp add: dbm_1)

lemma datetime_new_valid:
  assumes "datetime_new y m d hh mm ss us = Inr dt"
  shows "valid_datetime dt" and "microsecond dt = us"
  using assms by (auto simp: datetime_new_def valid_datetime_def split: if_splits)

lemma strptime_valid:
  assumes "strptime s = Inr dt"
  shows "valid_datetime dt" and "microsecond dt = 0"
  using assms unfolding strptime_def
  by (auto split: option.splits prod.splits if_splits list.splits dest: datetime_new_valid)

lemma toordinal_bounds:
  assumes "valid_datetime dt"
  shows "1 \<le> toordinal dt" and "toordinal dt \<le> MAXORDINAL"
proof -
  let ?y = "year dt" and ?m = "month dt" and ?d = "day dt"
  from assms have y: "1 \<le> ?y" "?y \<le> 9999" and m: "1 \<le> ?m" "?m \<le> 12"
    and d: "1 \<le> ?d" "?d \<le> days_in_month ?y ?m"
    by (simp_all add: valid_datetime_def MINYEAR_def MAXYEAR_def)
  have "days_before_year 1 \<le> days_before_year ?y" using y(1) by (rule dby_mono)
  then have a: "0 \<le> days_before_year ?y" by (simp only: dby_1)
  have b: "0 \<le> days_before_month ?y ?m" using m by (rule dbm_nonneg)
  from a b d(1) show "1 \<le> toordinal dt" by (simp add: toordinal_def ymd2ord_def)
  have "days_before_month ?y ?m + ?d \<le> 365 + (if is_leap ?y then 1 else 0)"
    using m d(2) by (rule dbm_day_le)
  then have "toordinal dt \<le> days_before_year (?y + 1)"
    by (simp only: dby_step toordinal_def ymd2ord_def)
  also have "\<dots> \<le> days_before_year 10000" using y(2) by (intro dby_mono) simp
  finally show "toordinal dt \<le> MAXORDINAL" by (simp only: dby_10000 MAXORDINAL_def)
qed

lemma datetime_us_split:
  assumes "valid_datetime dt"
  obtains r where "datetime_us dt = 86400000000 * toordinal dt + r" and "0 \<le> r"
    and "r < 86400000000"
proof
  let ?r = "(second dt + minute dt * 60 + hour dt * 3600) * 1000000 + microsecond dt"
  show "datetime_us dt = 86400000000 * toordinal dt + ?r"
    by (simp add: datetime_us_def algebra_simps)
  from assms show "0 \<le> ?r" "?r < 86400000000"
    by (simp_all add: valid_datetime_def)
qed

lemma datetime_us_days:
  assumes "valid_datetime dt"
  shows "datetime_us dt div 86400000000 = toordinal dt"
proof -
  from assms obtain r where "datetime_us dt = 86400000000 * toordinal dt + r" "0 \<le> r"
    "r < 86400000000" by (rule datetime_us_split)
  then show ?thesis by (rule int_div_pos_eq)
qed

lemma datetime_us_bounds:
  assumes "valid_datetime dt"
  shows "86400000000 \<le> datetime_us dt" and "datetime_us dt < 3652060 * 86400000000"
proof -
  from assms obtain r where r: "datetime_us dt = 86400000000 * toordinal dt + r" "0 \<le> r"
    "r < 86400000000" by (rule datetime_us_split)
  from toordinal_bounds [OF assms] have "1 \<le> toordinal dt" "toordinal dt \<le> 3652059"
    by (simp_all add: MAXORDINAL_def)
  with r show "86400000000 \<le> datetime_us dt" "datetime_us dt < 3652060 * 86400000000"
    by simp_all
qed

lemma td_check_ok:
  assumes "- (999999999 * 86400000000) \<le> t" and "t \<le> 999999999 * 86400000000"
  shows "td_check t = Inr t"
proof -
  have "t div 86400000000 \<le> (999999999 * 86400000000) div 86400000000"
    using assms(2) by (intro zdiv_mono1) simp_all
  moreover have "(- (999999999 * 86400000000)) div 86400000000 \<le> t div 86400000000"
    using assms(1) by (intro zdiv_mono1) simp_all
  ultimately have "- 999999999 \<le> td_days t" "td_days t \<le> 999999999"
    by (simp_all add: td_days_def)
  then show ?thesis by (simp add: td_check_def)
qed

lemma td_fields:
  "(td_days t * 86400 + td_seconds t) * 10 ^ 6 + td_microseconds t = t"
proof -
  define q r s u where "q = t div 86400000000" and "r = t mod 86400000000"
    and "s = r div 1000000" and "u = r mod 1000000"
  have t: "t = q * 86400000000 + r" by (simp add: q_def r_def)
  have r: "r = s * 1000000 + u" by (simp add: s_def u_def)
  have "t mod 86400000000 mod 1000000 = t mod 1000000"
    by (rule mod_mod_cancel) simp
  then have u: "td_microseconds t = u" by (simp add: td_microseconds_def u_def r_def)
  have "td_days t = q" "td_seconds t = s"
    by (simp_all add: td_days_def td_seconds_def q_def s_def r_def)
  with u have "(td_days t * 86400 + td_seconds t) * 10 ^ 6 + td_microseconds t
      = q * 86400000000 + (s * 1000000 + u)" by simp
  with t r show ?thesis by simp
qed

lemma datetime_sub_ok:
  assumes "valid_datetime a" and "valid_datetime b"
  shows "datetime_sub b a = Inr (datetime_us b - datetime_us a)"
proof -
  have e: "((toordinal b - toordinal a) * 86400 +
      (second b + minute b * 60 + hour b * 3600 - (second a + minute a * 60 + hour a * 3600)))
        * 1000000 + (microsecond b - microsecond a) = datetime_us b - datetime_us a"
    by (simp add: datetime_us_def algebra_simps)
  from datetime_us_bounds [OF assms(1)] datetime_us_bounds [OF assms(2)]
  have "td_check (datetime_us b - datetime_us a) = Inr (datetime_us b - datetime_us a)"
    by (intro td_check_ok) simp_all
  with e show ?thesis by (simp add: datetime_sub_def timedelta_new_def Let_def)
qed

lemma mod_zero_iff:
  fixes a k q r :: int
  assumes "a = k * q + r" and "0 < r" and "r \<le> k"
  shows "a mod k = 0 \<longleftrightarrow> r = k"
proof (cases "r = k")
  case True
  with assms(1) have "a = k * (q + 1) + 0" by (simp add: algebra_simps)
  moreover from assms have "0 < k" by simp
  ultimately have "a mod k = 0" by (intro int_mod_pos_eq) simp_all
  with True show ?thesis by simp
next
  case False
  with assms have "a mod k = r" by (intro int_mod_pos_eq) simp_all
  with False assms show ?thesis by simp
qed

lemma dby_decomp:
  assumes "0 \<le> c100" "c100 \<le> 3" "0 \<le> c4" "c4 \<le> 24" "0 \<le> c1" "c1 \<le> 3"
  shows "days_before_year (400 * c400 + 100 * c100 + 4 * c4 + c1 + 1)
    = 146097 * c400 + 36524 * c100 + 1461 * c4 + 365 * c1"
proof -
  define z where "z = 400 * c400 + 100 * c100 + 4 * c4 + c1"
  have d4: "z div 4 = 100 * c400 + 25 * c100 + c4"
    by (rule int_div_pos_eq [where r = c1]) (use assms in \<open>simp_all add: z_def\<close>)
  have d100: "z div 100 = 4 * c400 + c100"
    by (rule int_div_pos_eq [where r = "4 * c4 + c1"]) (use assms in \<open>simp_all add: z_def\<close>)
  have d400: "z div 400 = c400"
    by (rule int_div_pos_eq [where r = "100 * c100 + 4 * c4 + c1"])
      (use assms in \<open>simp_all add: z_def\<close>)
  have "days_before_year (z + 1) = z * 365 + z div 4 - z div 100 + z div 400"
    by (simp only: days_before_year_def Let_def add_diff_cancel_right')
  also have "\<dots> = 146097 * c400 + 36524 * c100 + 1461 * c4 + 365 * c1"
    by (simp only: d4 d100 d400) (simp add: z_def)
  finally show ?thesis by (simp only: z_def)
qed

lemma leap_decomp:
  assumes "0 \<le> c100" "c100 \<le> 3" "0 \<le> c4" "c4 \<le> 24" "0 \<le> c1" "c1 \<le> 3"
  shows "is_leap (400 * c400 + 100 * c100 + 4 * c4 + c1 + 1)
    \<longleftrightarrow> c1 = 3 \<and> (c4 \<noteq> 24 \<or> c100 = 3)"
proof -
  define y where "y = 400 * c400 + 100 * c100 + 4 * c4 + c1 + 1"
  have m4: "y mod 4 = 0 \<longleftrightarrow> c1 + 1 = 4"
    by (rule mod_zero_iff [where q = "100 * c400 + 25 * c100 + c4"])
      (use assms in \<open>simp_all add: y_def\<close>)
  have m100: "y mod 100 = 0 \<longleftrightarrow> 4 * c4 + c1 + 1 = 100"
    by (rule mod_zero_iff [where q = "4 * c400 + c100"])
      (use assms in \<open>simp_all add: y_def\<close>)
  have m400: "y mod 400 = 0 \<longleftrightarrow> 100 * c100 + 4 * c4 + c1 + 1 = 400"
    by (rule mod_zero_iff [where q = c400]) (use assms in \<open>simp_all add: y_def\<close>)
  have "is_leap y \<longleftrightarrow> c1 + 1 = 4 \<and> (4 * c4 + c1 + 1 \<noteq> 100 \<or> 100 * c100 + 4 * c4 + c1 + 1 = 400)"
    by (simp only: is_leap_def m4 m100 m400)
  also have "\<dots> \<longleftrightarrow> c1 = 3 \<and> (c4 \<noteq> 24 \<or> c100 = 3)"
    using assms by auto
  finally show ?thesis by (simp only: y_def)
qed

lemma month_day_correct:
  assumes "0 \<le> r" and "r < 365"
  obtains m d where "month_day lp r = (m, d)" and "1 \<le> m" and "m \<le> 12" and "1 \<le> d"
    and "d \<le> (if m = 2 \<and> lp then 29 else DAYS_IN_MONTH ! nat m)"
    and "DAYS_BEFORE_MONTH ! nat m + (if 2 < m \<and> lp then 1 else 0) + d = r + 1"
proof -
  define e where "e = (r + 50) div 32"
  define t where "t = (r + 50) mod 32"
  have t: "0 \<le> t" "t < 32" by (simp_all add: t_def)
  have rt: "r + 50 = 32 * e + t" by (simp add: e_def t_def)
  with assms t have "1 \<le> e" "e \<le> 12" by simp_all
  then have cases: "e = 1 \<or> e = 2 \<or> e = 3 \<or> e = 4 \<or> e = 5 \<or> e = 6 \<or> e = 7 \<or> e = 8 \<or> e = 9
    \<or> e = 10 \<or> e = 11 \<or> e = 12" by arith
  have md: "month_day lp r =
     (let preceding = DAYS_BEFORE_MONTH ! nat e + (if 2 < e \<and> lp then 1 else 0)
      in if r < preceding
         then (e - 1, r - (preceding -
                    (DAYS_IN_MONTH ! nat (e - 1) + (if e - 1 = 2 \<and> lp then 1 else 0))) + 1)
         else (e, r - preceding + 1))"
    by (simp only: month_day_def Let_def e_def)
  have "\<exists>m d. month_day lp r = (m, d) \<and> 1 \<le> m \<and> m \<le> 12 \<and> 1 \<le> d
    \<and> d \<le> (if m = 2 \<and> lp then 29 else DAYS_IN_MONTH ! nat m)
    \<and> DAYS_BEFORE_MONTH ! nat m + (if 2 < m \<and> lp then 1 else 0) + d = r + 1"
    using cases
  proof (elim disjE)
    assume "e = 1" with rt t assms md show ?thesis
      by (cases lp) (simp_all add: DAYS_BEFORE_MONTH_def DAYS_IN_MONTH_def Let_def)
  next
    assume "e = 2" with rt t assms md show ?thesis
      by (cases lp) (simp_all add: DAYS_BEFORE_MONTH_def DAYS_IN_MONTH_def Let_def)
  next
    assume "e = 3" with rt t assms md show ?thesis
      by (cases lp) (simp_all add: DAYS_BEFORE_MONTH_def DAYS_IN_MONTH_def Let_def)
  next
    assume "e = 4" with rt t assms md show ?thesis
      by (cases lp) (simp_all add: DAYS_BEFORE_MONTH_def DAYS_IN_MONTH_def Let_def)
  next
    assume "e = 5" with rt t assms md show ?thesis
      by (cases lp) (simp_all add: DAYS_BEFORE_MONTH_def DAYS_IN_MONTH_def Let_def)
  next
    assume "e = 6" with rt t assms md show ?thesis
      by (cases lp) (simp_all add: DAYS_BEFORE_MONTH_def DAYS_IN_MONTH_def Let_def)
  next
    assume "e = 7" with rt t assms md show ?thesis
      by (cases lp) (simp_all add: DAYS_BEFORE_MONTH_def DAYS_IN_MONTH_def Let_def)
  next
    assume "e = 8" with rt t assms md show ?thesis
      by (cases lp) (simp_all add: DAYS_BEFORE_MONTH_def DAYS_IN_MONTH_def Let_def)
  next
    assume "e = 9" with rt t assms md show ?thesis
      by (cases lp) (simp_all add: DAYS_BEFORE_MONTH_def DAYS_IN_MONTH_def Let_def)
  next
    assume "e = 10" with rt t assms md show ?thesis
      by (cases lp) (simp_all add: DAYS_BEFORE_MONTH_def DAYS_IN_MONTH_def Let_def)
  next
    assume "e = 11" with rt t assms md show ?thesis
      by (cases lp) (simp_all add: DAYS_BEFORE_MONTH_def DAYS_IN_MONTH_def Let_def)
  next
    assume "e = 12" with rt t assms md show ?thesis
      by (cases lp) (simp_all add: DAYS_BEFORE_MONTH_def DAYS_IN_MONTH_def Let_def)
  qed
  then show ?thesis using that by blast
qed

lemma ord2ymd_unfold:
  "ord2ymd n =
     (let n0 = n - 1;
          n400 = n0 div 146097; r1 = n0 mod 146097;
          n100 = r1 div 36524; r2 = r1 mod 36524;
          n4 = r2 div 1461; r3 = r2 mod 1461;
          n1 = r3 div 365; r4 = r3 mod 365;
          yy = n400 * 400 + 1 + n100 * 100 + n4 * 4 + n1
      in if n1 = 4 \<or> n100 = 4 then (yy - 1, 12, 31)
         else case month_day (n1 = 3 \<and> (n4 \<noteq> 24 \<or> n100 = 3)) r4 of (m, d) \<Rightarrow> (yy, m, d))"
  unfolding ord2ymd_def month_day_def Let_def
  by (simp only: prod.case if_distrib [of "case_prod f" for f] cong: if_cong)

lemma ord2ymd_correct:
  assumes "1 \<le> n"
  obtains y m d where "ord2ymd n = (y, m, d)" and "1 \<le> y" and "1 \<le> m" and "m \<le> 12"
    and "1 \<le> d" and "d \<le> days_in_month y m" and "ymd2ord y m d = n"
proof -
  define n0 where "n0 = n - 1"
  define n400 r1 where "n400 = n0 div 146097" and "r1 = n0 mod 146097"
  define n100 r2 where "n100 = r1 div 36524" and "r2 = r1 mod 36524"
  define n4 r3 where "n4 = r2 div 1461" and "r3 = r2 mod 1461"
  define n1 r4 where "n1 = r3 div 365" and "r4 = r3 mod 365"
  define yy where "yy = n400 * 400 + 1 + n100 * 100 + n4 * 4 + n1"
  have n0: "0 \<le> n0" using assms by (simp add: n0_def)
  have e1: "n0 = 146097 * n400 + r1" and b1: "0 \<le> r1" "r1 < 146097"
    by (simp_all add: n400_def r1_def)
  have e2: "r1 = 36524 * n100 + r2" and b2: "0 \<le> r2" "r2 < 36524"
    by (simp_all add: n100_def r2_def)
  have e3: "r2 = 1461 * n4 + r3" and b3: "0 \<le> r3" "r3 < 1461"
    by (simp_all add: n4_def r3_def)
  have e4: "r3 = 365 * n1 + r4" and b4: "0 \<le> r4" "r4 < 365"
    by (simp_all add: n1_def r4_def)
  have p400: "0 \<le> n400" using n0 by (simp add: n400_def pos_imp_zdiv_nonneg_iff)
  have p100: "0 \<le> n100" using b1 by (simp add: n100_def pos_imp_zdiv_nonneg_iff)
  have p4: "0 \<le> n4" using b2 by (simp add: n4_def pos_imp_zdiv_nonneg_iff)
  have p1: "0 \<le> n1" using b3 by (simp add: n1_def pos_imp_zdiv_nonneg_iff)
  have u100: "n100 \<le> 4" using e2 b1 b2 by simp
  have u4: "n4 \<le> 24" using e3 b2 b3 by simp
  have u1: "n1 \<le> 4" using e4 b3 b4 by simp
  have total: "n = 146097 * n400 + 36524 * n100 + 1461 * n4 + 365 * n1 + r4 + 1"
    using e1 e2 e3 e4 by (simp add: n0_def)
  have unfold: "ord2ymd n =
     (if n1 = 4 \<or> n100 = 4 then (yy - 1, 12, 31)
      else case month_day (n1 = 3 \<and> (n4 \<noteq> 24 \<or> n100 = 3)) r4 of (m, d) \<Rightarrow> (yy, m, d))"
    by (simp only: ord2ymd_unfold Let_def n0_def n400_def r1_def n100_def r2_def
        n4_def r3_def n1_def r4_def yy_def)
  show ?thesis
  proof (cases "n100 = 4")
    case True
    with e2 b1 b2 have "r2 = 0" by simp
    with e3 b3 p4 have "n4 = 0" "r3 = 0" by simp_all
    with e4 b4 p1 have "n1 = 0" "r4 = 0" by simp_all
    have y: "yy - 1 = 400 * n400 + 100 * 3 + 4 * 24 + 3 + 1"
      using True \<open>n4 = 0\<close> \<open>n1 = 0\<close> by (simp add: yy_def)
    have dby: "days_before_year (yy - 1) = 146097 * n400 + 145731"
      using dby_decomp [of 3 24 3 n400] by (simp add: y)
    have leap: "is_leap (yy - 1)"
      using leap_decomp [of 3 24 3 n400] by (simp add: y)
    have n: "n = 146097 * n400 + 146097"
      using total True \<open>n4 = 0\<close> \<open>n1 = 0\<close> \<open>r4 = 0\<close> by simp
    have f1: "ord2ymd n = (yy - 1, 12, 31)" using unfold True by simp
    have f2: "1 \<le> yy - 1" using y p400 by simp
    have f3: "(31::int) \<le> days_in_month (yy - 1) 12"
      by (simp add: days_in_month_def DAYS_IN_MONTH_def)
    have f4: "ymd2ord (yy - 1) 12 31 = n"
      using dby leap n by (simp add: ymd2ord_def days_before_month_def DAYS_BEFORE_MONTH_def)
    show ?thesis using that [OF f1 f2 _ _ _ f3 f4] by simp
  next
    case n100: False
    with u100 have c100: "n100 \<le> 3" by simp
    show ?thesis
    proof (cases "n1 = 4")
      case True
      with e4 b3 b4 have "r4 = 0" by simp
      from True e4 e3 b2 \<open>r4 = 0\<close> have c4: "n4 \<le> 23" by simp
      have y: "yy - 1 = 400 * n400 + 100 * n100 + 4 * n4 + 3 + 1"
        using True by (simp add: yy_def)
      have dby: "days_before_year (yy - 1) = 146097 * n400 + 36524 * n100 + 1461 * n4 + 1095"
        using dby_decomp [of n100 n4 3 n400] p100 c100 p4 c4 by (simp add: y)
      have leap: "is_leap (yy - 1)"
        using leap_decomp [of n100 n4 3 n400] p100 c100 p4 c4 by (simp add: y)
      have n: "n = 146097 * n400 + 36524 * n100 + 1461 * n4 + 1461"
        using total True \<open>r4 = 0\<close> by simp
      have f1: "ord2ymd n = (yy - 1, 12, 31)" using unfold True by simp
      have f2: "1 \<le> yy - 1" using y p400 p100 p4 by simp
      have f3: "(31::int) \<le> days_in_month (yy - 1) 12"
        by (simp add: days_in_month_def DAYS_IN_MONTH_def)
      have f4: "ymd2ord (yy - 1) 12 31 = n"
        using dby leap n by (simp add: ymd2ord_def days_before_month_def DAYS_BEFORE_MONTH_def)
      show ?thesis using that [OF f1 f2 _ _ _ f3 f4] by simp
    next
      case False
      with u1 have c1: "n1 \<le> 3" by simp
      define lp where "lp \<longleftrightarrow> n1 = 3 \<and> (n4 \<noteq> 24 \<or> n100 = 3)"
      have y: "yy = 400 * n400 + 100 * n100 + 4 * n4 + n1 + 1" by (simp add: yy_def)
      have dby: "days_before_year yy = 146097 * n400 + 36524 * n100 + 1461 * n4 + 365 * n1"
        using p100 c100 p4 u4 p1 c1 by (simp only: y) (rule dby_decomp)
      have leap: "is_leap yy \<longleftrightarrow> lp"
        using p100 c100 p4 u4 p1 c1 by (simp only: y lp_def) (rule leap_decomp)
      from b4 obtain m d where md: "month_day lp r4 = (m, d)" and m: "1 \<le> m" "m \<le> 12"
        and d: "1 \<le> d" "d \<le> (if m = 2 \<and> lp then 29 else DAYS_IN_MONTH ! nat m)"
        and s: "DAYS_BEFORE_MONTH ! nat m + (if 2 < m \<and> lp then 1 else 0) + d = r4 + 1"
        by (rule month_day_correct)
      have f1: "ord2ymd n = (yy, m, d)" using unfold n100 False md by (simp add: lp_def)
      have f2: "1 \<le> yy" using y p400 p100 p4 p1 by simp
      have f3: "d \<le> days_in_month yy m" using d(2) by (simp add: days_in_month_def leap)
      have f4: "ymd2ord yy m d = n"
        using s dby total by (simp add: ymd2ord_def days_before_month_def leap)
      show ?thesis using f1 f2 m d(1) f3 f4 by (rule that)
    qed
  qed
qed

lemma ymd2ord_year_bound:
  assumes "ymd2ord y m d \<le> MAXORDINAL" and "1 \<le> m" and "m \<le> 12" and "1 \<le> d"
  shows "y \<le> 9999"
proof (rule ccontr)
  assume "\<not> y \<le> 9999"
  then have "10000 \<le> y" by simp
  then have "days_before_year 10000 \<le> days_before_year y" by (rule dby_mono)
  then have "3652059 \<le> days_before_year y" by (simp only: dby_10000)
  moreover have "0 \<le> days_before_month y m" using assms(2,3) by (rule dbm_nonneg)
  ultimately have "3652060 \<le> ymd2ord y m d" using assms(4) by (simp add: ymd2ord_def)
  with assms(1) show False by (simp add: MAXORDINAL_def)
qed

lemma time_fields:
  fixes secs :: int
  assumes "0 \<le> secs" and "secs < 86400"
  defines "hh \<equiv> secs div 3600" and "rem \<equiv> secs mod 3600"
  shows "0 \<le> hh" and "hh \<le> 23" and "0 \<le> rem div 60" and "rem div 60 \<le> 59"
    and "0 \<le> rem mod 60" and "rem mod 60 \<le> 59"
    and "rem mod 60 + rem div 60 * 60 + hh * 3600 = secs"
proof -
  show "0 \<le> hh" using assms(1) by (simp add: hh_def pos_imp_zdiv_nonneg_iff)
  have "secs div 3600 \<le> 86399 div 3600" using assms(2) by (intro zdiv_mono1) simp_all
  then show "hh \<le> 23" by (simp add: hh_def)
  have r: "0 \<le> rem" "rem < 3600" by (simp_all add: rem_def)
  show "0 \<le> rem div 60" using r(1) by (simp add: pos_imp_zdiv_nonneg_iff)
  have "rem div 60 \<le> 3599 div 60" using r(2) by (intro zdiv_mono1) simp_all
  then show "rem div 60 \<le> 59" by simp
  show "0 \<le> rem mod 60" by simp
  have "rem mod 60 < 60" by simp
  then show "rem mod 60 \<le> 59" by simp
  have "rem mod 60 + rem div 60 * 60 = rem" by simp
  moreover have "rem + hh * 3600 = secs" by (simp add: rem_def hh_def)
  ultimately show "rem mod 60 + rem div 60 * 60 + hh * 3600 = secs" by simp
qed

lemma datetime_add_ok:
  assumes a: "valid_datetime a"
    and lo: "86400000000 \<le> datetime_us a + off"
    and hi: "datetime_us a + off < 3652060 * 86400000000"
  obtains v where "datetime_add a off = Inr v" and "valid_datetime v"
    and "datetime_us v = datetime_us a + off"
proof -
  define t where "t = datetime_us a + off"
  define days secs us where "days = td_days t" and "secs = td_seconds t"
    and "us = td_microseconds t"
  define hh rem where "hh = secs div 3600" and "rem = secs mod 3600"
  have c0: "td_check (datetime_us a) = Inr (datetime_us a)"
    using datetime_us_bounds [OF a] by (intro td_check_ok) simp_all
  have c1: "td_check t = Inr t"
    using lo hi by (intro td_check_ok) (simp_all add: t_def)
  have "86400000000 div 86400000000 \<le> t div 86400000000"
    using lo unfolding t_def by (intro zdiv_mono1) simp_all
  then have d1: "1 \<le> days" by (simp add: days_def td_days_def)
  have "t \<le> 3652060 * 86400000000 - 1" using hi by (simp add: t_def)
  then have "t div 86400000000 \<le> (3652060 * 86400000000 - 1) div 86400000000"
    by (intro zdiv_mono1) simp_all
  then have d2: "days \<le> 3652059" by (simp add: days_def td_days_def)
  have s1: "0 \<le> secs" by (simp add: secs_def td_seconds_def pos_imp_zdiv_nonneg_iff)
  have "t mod 86400000000 \<le> 86399999999"
    using pos_mod_bound [of 86400000000 t] by simp
  then have "(t mod 86400000000) div 1000000 \<le> 86399999999 div 1000000"
    by (intro zdiv_mono1) simp_all
  then have s2: "secs < 86400" by (simp add: secs_def td_seconds_def)
  have u: "0 \<le> us" "us \<le> 999999"
    using pos_mod_bound [of 1000000 t] by (simp_all add: us_def td_microseconds_def)
  from d1 obtain y m d where ymd: "ord2ymd days = (y, m, d)" and y: "1 \<le> y"
    and m: "1 \<le> m" "m \<le> 12" and d: "1 \<le> d" "d \<le> days_in_month y m"
    and ord: "ymd2ord y m d = days"
    by (rule ord2ymd_correct)
  from ord d2 have "ymd2ord y m d \<le> MAXORDINAL" by (simp add: MAXORDINAL_def)
  then have y2: "y \<le> 9999" using m d(1) by (rule ymd2ord_year_bound)
  define v where "v = \<lparr>year = y, month = m, day = d, hour = hh, minute = rem div 60,
    second = rem mod 60, microsecond = us\<rparr>"
  note tf = time_fields [OF s1 s2, folded hh_def rem_def]
  have e0: "timedelta_new (toordinal a) (second a + minute a * 60 + hour a * 3600)
      (microsecond a) = Inr (datetime_us a)"
    using c0 by (simp only: timedelta_new_def datetime_us_def)
  have e1: "td_check (datetime_us a + off) = Inr t" using c1 by (simp only: t_def)
  have cond: "(0 < td_days t \<and> td_days t \<le> MAXORDINAL) = True"
    using d1 d2 by (simp add: days_def MAXORDINAL_def)
  have ymd': "ord2ymd (td_days t) = (y, m, d)" using ymd by (simp only: days_def)
  have add: "datetime_add a off = Inr v"
    by (simp only: datetime_add_def e0 sum.case e1 Let_def cond if_True ymd' prod.case
        v_def hh_def rem_def secs_def us_def)
  have valid: "valid_datetime v"
    using y y2 m d tf u by (simp add: valid_datetime_def v_def MINYEAR_def MAXYEAR_def)
  have "datetime_us v = (days * 86400 + secs) * 1000000 + us"
    using tf(7) ord by (simp add: datetime_us_def v_def toordinal_def)
  also have "\<dots> = t" using td_fields [of t] by (simp add: days_def secs_def us_def)
  finally have "datetime_us v = datetime_us a + off" by (simp add: t_def)
  with add valid show ?thesis by (rule that)
qed

subsection \<open>The random offset\<close>

lemma random_float_range:
  assumes "random_float g = (u, g')"
  shows "0 \<le> u" and "u < 1" and "g' = (\<lambda>i. g (Suc i))"
proof -
  define r where "r = g 0 mod 2 ^ 53"
  have r: "0 \<le> r" "r < 2 ^ 53" by (simp_all add: r_def)
  from assms have u: "u = of_int r / 2 ^ 53" and g': "g' = (\<lambda>i. g (Suc i))"
    by (simp_all add: random_float_def draw_def r_def)
  show "g' = (\<lambda>i. g (Suc i))" by (rule g')
  from r(1) show "0 \<le> u" by (simp add: u)
  have "(of_int r :: rat) < of_int (2 ^ 53)" using r(2) by (simp only: of_int_less_iff)
  then show "u < 1" by (simp add: u)
qed

lemma fl_between:
  assumes "of_int lo \<le> x" and "x \<le> of_int hi" and "- (2 ^ 53) < lo" and "hi < 2 ^ 53"
  shows "of_int lo \<le> fl x" and "fl x \<le> of_int hi"
proof -
  have "(of_int (- (2 ^ 53)) :: rat) < of_int lo" using assms(3) by (simp only: of_int_less_iff)
  moreover have "(of_int hi :: rat) < of_int (2 ^ 53)" using assms(4) by (simp only: of_int_less_iff)
  ultimately have "\<bar>x\<bar> < 2 ^ 53" using assms(1,2) by simp
  then show "of_int lo \<le> fl x" and "fl x \<le> of_int hi"
    using assms(1,2) by (simp_all add: fl_le_int fl_ge_int)
qed

lemma uniform_between:
  assumes D: "\<bar>D\<bar> < 2 ^ 53" and un: "uniform 0 (of_int D) g = (x, g')"
  shows "of_int (min 0 D) \<le> x" and "x \<le> of_int (max 0 D)" and "g' = (\<lambda>i. g (Suc i))"
proof -
  obtain u g1 where rf: "random_float g = (u, g1)" by (cases "random_float g")
  from random_float_range [OF rf] have u: "0 \<le> u" "u < 1" and g1: "g1 = (\<lambda>i. g (Suc i))" .
  have flD: "fl (of_int D) = of_int D" using D by (rule fl_of_int)
  define y where "y = of_int D * u"
  from un rf have x: "x = fl (fl y)" and "g' = g1"
    by (simp_all add: uniform_def flD y_def)
  with g1 show "g' = (\<lambda>i. g (Suc i))" by simp
  have lo: "- (2 ^ 53) < min 0 D" and hi: "max 0 D < 2 ^ 53" using D by simp_all
  have y: "of_int (min 0 D) \<le> y" "y \<le> of_int (max 0 D)"
  proof -
    show "of_int (min 0 D) \<le> y"
    proof (cases "0 \<le> D")
      case True
      then have "0 \<le> y" using u(1) by (simp add: y_def)
      with True show ?thesis by simp
    next
      case False
      then have "(of_int D :: rat) * 1 \<le> of_int D * u"
        using u by (intro mult_left_mono_neg) simp_all
      with False show ?thesis by (simp add: y_def)
    qed
    show "y \<le> of_int (max 0 D)"
    proof (cases "0 \<le> D")
      case True
      then have "(of_int D :: rat) * u \<le> of_int D * 1"
        using u by (intro mult_left_mono) simp_all
      with True show ?thesis by (simp add: y_def)
    next
      case False
      then have "y \<le> 0" using u(1) by (simp add: y_def mult_nonpos_nonneg)
      with False show ?thesis by simp
    qed
  qed
  have z: "of_int (min 0 D) \<le> fl y" "fl y \<le> of_int (max 0 D)"
    using y lo hi by (rule fl_between)+
  show "of_int (min 0 D) \<le> x" "x \<le> of_int (max 0 D)"
    unfolding x using z lo hi by (rule fl_between)+
qed

lemma fraction_us_nonneg:
  assumes "0 \<le> f" and "f < 1"
  shows "0 \<le> round_half_even (fl (f * 1000000))"
    and "round_half_even (fl (f * 1000000)) \<le> 1000000"
proof -
  have "of_int 0 \<le> f * 1000000" "f * 1000000 \<le> of_int 1000000" using assms by simp_all
  then have b: "of_int 0 \<le> fl (f * 1000000)" "fl (f * 1000000) \<le> of_int 1000000"
    by (rule fl_between; simp)+
  from b(1) show "0 \<le> round_half_even (fl (f * 1000000))" by (rule round_half_even_ge)
  from b(2) show "round_half_even (fl (f * 1000000)) \<le> 1000000" by (rule round_half_even_le)
qed

lemma fraction_us_nonpos:
  assumes "- 1 < f" and "f \<le> 0"
  shows "- 1000000 \<le> round_half_even (fl (f * 1000000))"
    and "round_half_even (fl (f * 1000000)) \<le> 0"
proof -
  have "of_int (- 1000000) \<le> f * 1000000" "f * 1000000 \<le> of_int 0" using assms by simp_all
  then have b: "of_int (- 1000000) \<le> fl (f * 1000000)" "fl (f * 1000000) \<le> of_int 0"
    by (rule fl_between; simp)+
  from b(1) show "- 1000000 \<le> round_half_even (fl (f * 1000000))"
    by (rule round_half_even_ge)
  from b(2) show "round_half_even (fl (f * 1000000)) \<le> 0" by (rule round_half_even_le)
qed

lemma fraction_us_zero: "round_half_even (fl (0 * 1000000)) = 0"
  by (simp add: fl_def round_half_even_def)

lemma offset_between:
  assumes lo: "of_int lo \<le> x" and hi: "x \<le> of_int hi"
  defines "off \<equiv> trunc x * 1000000 + round_half_even (fl ((x - of_int (trunc x)) * 1000000))"
  shows "lo * 1000000 \<le> off" and "off \<le> hi * 1000000"
proof -
  define tr where "tr = trunc x"
  define f where "f = x - of_int tr"
  define m where "m = round_half_even (fl (f * 1000000))"
  have off: "off = tr * 1000000 + m" by (simp add: off_def tr_def f_def m_def)
  have exact: "m = 0" if "x = of_int tr"
    using that fraction_us_zero by (simp add: m_def f_def)
  have "lo * 1000000 \<le> off \<and> off \<le> hi * 1000000"
  proof (cases "0 \<le> x")
    case True
    then have tr: "tr = \<lfloor>x\<rfloor>" by (simp add: tr_def trunc_def)
    have f: "0 \<le> f" "f < 1"
      unfolding f_def tr by linarith+
    from fraction_us_nonneg [OF f] have m: "0 \<le> m" "m \<le> 1000000" by (simp_all add: m_def)
    have l: "lo \<le> tr" unfolding tr using lo by (simp add: le_floor_iff)
    have h: "tr \<le> hi" unfolding tr using hi by (simp add: floor_le_iff)
    show ?thesis
    proof (cases "tr = hi")
      case True
      have "of_int tr \<le> x" unfolding tr by simp
      with hi True have "x = of_int tr" by simp
      then have "m = 0" by (rule exact)
      with l True show ?thesis by (simp add: off)
    next
      case False
      with h have "tr \<le> hi - 1" by simp
      with l m show ?thesis by (simp add: off)
    qed
  next
    case False
    then have tr: "tr = \<lceil>x\<rceil>" by (simp add: tr_def trunc_def)
    have f: "- 1 < f" "f \<le> 0"
      unfolding f_def tr by linarith+
    from fraction_us_nonpos [OF f] have m: "- 1000000 \<le> m" "m \<le> 0" by (simp_all add: m_def)
    have h: "tr \<le> hi" unfolding tr using hi by (simp add: ceiling_le_iff)
    have l: "lo \<le> tr" unfolding tr using lo by (simp add: le_ceiling_iff)
    show ?thesis
    proof (cases "tr = lo")
      case True
      have "x \<le> of_int tr" unfolding tr by simp
      with lo True have "x = of_int tr" by simp
      then have "m = 0" by (rule exact)
      with h True show ?thesis by (simp add: off)
    next
      case False
      with l have "lo + 1 \<le> tr" by simp
      with h m show ?thesis by (simp add: off)
    qed
  qed
  then show "lo * 1000000 \<le> off" and "off \<le> hi * 1000000" by simp_all
qed

lemma timedelta_seconds_between:
  assumes "of_int lo \<le> x" and "x \<le> of_int hi"
    and "- 86399999913600 \<le> lo" and "hi \<le> 86399999913600"
  obtains off where "timedelta_seconds x = Inr off" and "lo * 1000000 \<le> off"
    and "off \<le> hi * 1000000"
proof -
  define off where
    "off = trunc x * 1000000 + round_half_even (fl ((x - of_int (trunc x)) * 1000000))"
  from offset_between [OF assms(1,2)] have b: "lo * 1000000 \<le> off" "off \<le> hi * 1000000"
    by (simp_all add: off_def)
  with assms(3,4) have "td_check off = Inr off" by (intro td_check_ok) simp_all
  then have "timedelta_seconds x = Inr off"
    by (simp add: timedelta_seconds_def modf_def Let_def off_def)
  then show ?thesis using b by (rule that)
qed

lemma rand_ts_core:
  assumes pa: "str_to_ts smin = Inr a" and pb: "str_to_ts smax = Inr b"
  obtains v where "rand_ts smin smax g = Inr (v, \<lambda>i. g (Suc i))" and "valid_datetime v"
    and "min (datetime_us a) (datetime_us b) \<le> datetime_us v"
    and "datetime_us v \<le> max (datetime_us a) (datetime_us b)"
proof -
  from pa have va: "valid_datetime a" and ma: "microsecond a = 0"
    by (simp_all add: str_to_ts_def strptime_valid)
  from pb have vb: "valid_datetime b" and mb: "microsecond b = 0"
    by (simp_all add: str_to_ts_def strptime_valid)
  define sa sb where "sa = toordinal a * 86400 + (second a + minute a * 60 + hour a * 3600)"
    and "sb = toordinal b * 86400 + (second b + minute b * 60 + hour b * 3600)"
  define D where "D = sb - sa"
  have ua: "datetime_us a = sa * 1000000" using ma by (simp add: datetime_us_def sa_def)
  have ub: "datetime_us b = sb * 1000000" using mb by (simp add: datetime_us_def sb_def)
  have ub': "datetime_us b = datetime_us a + D * 1000000" by (simp add: ua ub D_def)
  have sub: "datetime_sub tmax tmin = Inr (D * 1000000)" if "tmax = b" "tmin = a" for tmax tmin
    using datetime_sub_ok [OF va vb] ub' that by simp
  note ba = datetime_us_bounds [OF va] and bb = datetime_us_bounds [OF vb]
  have Db: "- 315537897600 < D" "D < 315537897600"
    using ba bb ub' by simp_all
  then have D53: "\<bar>D\<bar> < 2 ^ 53" by simp
  have "total_seconds (D * 1000000) = fl (of_int (D * 1000000) / 10 ^ 6)"
    by (simp only: total_seconds_def td_fields)
  also have "\<dots> = fl (of_int D)" by simp
  also have "\<dots> = of_int D" using D53 by (rule fl_of_int)
  finally have ts: "total_seconds (D * 1000000) = of_int D" .
  obtain x g' where un: "uniform 0 (of_int D) g = (x, g')" by (cases "uniform 0 (of_int D) g")
  from uniform_between [OF D53 un]
  have x: "of_int (min 0 D) \<le> x" "x \<le> of_int (max 0 D)" and g': "g' = (\<lambda>i. g (Suc i))" .
  have "- 86399999913600 \<le> min 0 D" and "max 0 D \<le> 86399999913600" using Db by simp_all
  with x obtain off where off: "timedelta_seconds x = Inr off"
    and ob: "min 0 D * 1000000 \<le> off" "off \<le> max 0 D * 1000000"
    by (rule timedelta_seconds_between)
  have lo: "min (datetime_us a) (datetime_us b) \<le> datetime_us a + off"
    using ob(1) ub' by (cases "0 \<le> D") (simp_all add: min_def)
  have hi: "datetime_us a + off \<le> max (datetime_us a) (datetime_us b)"
    using ob(2) ub' by (cases "0 \<le> D") (simp_all add: max_def)
  have l1: "86400000000 \<le> datetime_us a + off" using lo ba(1) bb(1) by simp
  have l2: "datetime_us a + off < 3652060 * 86400000000" using hi ba(2) bb(2) by simp
  obtain v where add: "datetime_add a off = Inr v" and vv: "valid_datetime v"
    and uv: "datetime_us v = datetime_us a + off"
    by (rule datetime_add_ok [OF va l1 l2])
  have "rand_ts smin smax g = Inr (v, g')"
    by (simp add: rand_ts_def pa pb sub ts un off add)
  with g' have "rand_ts smin smax g = Inr (v, \<lambda>i. g (Suc i))" by simp
  then show ?thesis using vv lo hi unfolding uv [symmetric] by (rule that)
qed

subsection \<open>Order of datetimes\<close>

lemma ymd2ord_less:
  assumes m1: "1 \<le> m1" "m1 \<le> 12" and d1: "1 \<le> d1" "d1 \<le> days_in_month y1 m1"
    and m2: "1 \<le> m2" "m2 \<le> 12" and d2: "1 \<le> d2" "d2 \<le> days_in_month y2 m2"
    and less: "y1 < y2 \<or> (y1 = y2 \<and> (m1 < m2 \<or> (m1 = m2 \<and> d1 < d2)))"
  shows "ymd2ord y1 m1 d1 < ymd2ord y2 m2 d2"
proof -
  have p2: "0 \<le> days_before_month y2 m2" using m2 by (rule dbm_nonneg)
  from less consider (year) "y1 < y2" | (month) "y1 = y2" "m1 < m2"
    | (day) "y1 = y2" "m1 = m2" "d1 < d2" by blast
  then show ?thesis
  proof cases
    case year
    have "days_before_month y1 m1 + d1 \<le> 365 + (if is_leap y1 then 1 else 0)"
      using m1 d1(2) by (rule dbm_day_le)
    then have "ymd2ord y1 m1 d1 \<le> days_before_year (y1 + 1)"
      by (simp only: dby_step ymd2ord_def)
    also have "\<dots> \<le> days_before_year y2" using year by (intro dby_mono) simp
    also have "\<dots> < ymd2ord y2 m2 d2" using p2 d2(1) by (simp add: ymd2ord_def)
    finally show ?thesis .
  next
    case month
    then have m11: "m1 \<le> 11" using m2 by simp
    have "days_before_month y1 m1 + d1 \<le> days_before_month y1 m1 + days_in_month y1 m1"
      using d1(2) by simp
    also have "\<dots> = days_before_month y1 (m1 + 1)" using m1(1) m11 by (simp add: dbm_next)
    also have "\<dots> \<le> days_before_month y1 m2" using m1 month m2 by (intro dbm_mono) simp_all
    finally show ?thesis using month(1) d2(1) by (simp add: ymd2ord_def)
  next
    case day
    then show ?thesis by (simp add: ymd2ord_def)
  qed
qed

lemma time_of_day_less:
  fixes h1 h2 :: int
  assumes "0 \<le> mi1" "mi1 \<le> 59" "0 \<le> s1" "s1 \<le> 59" "0 \<le> u1" "u1 \<le> 999999"
    and "0 \<le> mi2" "0 \<le> s2" "0 \<le> u2"
    and "h1 < h2 \<or> (h1 = h2 \<and> (mi1 < mi2 \<or> (mi1 = mi2 \<and> (s1 < s2 \<or> (s1 = s2 \<and> u1 < u2)))))"
  shows "(s1 + mi1 * 60 + h1 * 3600) * 1000000 + u1 < (s2 + mi2 * 60 + h2 * 3600) * 1000000 + u2"
  using assms by (elim disjE conjE) simp_all

lemma datetime_le_of_us:
  assumes va: "valid_datetime a" and vb: "valid_datetime b"
    and le: "datetime_us a \<le> datetime_us b"
  shows "datetime_le a b"
proof (rule ccontr)
  assume n: "\<not> datetime_le a b"
  from va obtain ra where ra: "datetime_us a = 86400000000 * toordinal a + ra" "0 \<le> ra"
    "ra < 86400000000" by (rule datetime_us_split)
  from vb obtain rb where rb: "datetime_us b = 86400000000 * toordinal b + rb" "0 \<le> rb"
    "rb < 86400000000" by (rule datetime_us_split)
  let ?dlt = "\<lambda>p q. year p < year q \<or> (year p = year q \<and>
    (month p < month q \<or> (month p = month q \<and> day p < day q)))"
  consider (lt) "?dlt a b" | (eq) "year a = year b" "month a = month b" "day a = day b"
    | (gt) "?dlt b a" by linarith
  then show False
  proof cases
    case lt
    then have "datetime_le a b" by (auto simp add: datetime_le_def datetime_tuple_def)
    with n show False by simp
  next
    case gt
    from vb va have "ymd2ord (year b) (month b) (day b) < ymd2ord (year a) (month a) (day a)"
      using gt by (intro ymd2ord_less) (simp_all add: valid_datetime_def)
    then have "toordinal b + 1 \<le> toordinal a" by (simp add: toordinal_def)
    then have "86400000000 * toordinal b + 86400000000 \<le> 86400000000 * toordinal a" by simp
    with ra rb le show False by simp
  next
    case eq
    with n have "hour b < hour a \<or> (hour b = hour a \<and> (minute b < minute a \<or>
      (minute b = minute a \<and> (second b < second a \<or>
      (second b = second a \<and> microsecond b < microsecond a)))))"
      by (auto simp add: datetime_le_def datetime_tuple_def)
    with va vb have "(second b + minute b * 60 + hour b * 3600) * 1000000 + microsecond b
      < (second a + minute a * 60 + hour a * 3600) * 1000000 + microsecond a"
      by (intro time_of_day_less) (simp_all add: valid_datetime_def)
    moreover from eq have "toordinal a = toordinal b" by (simp add: toordinal_def)
    ultimately have "datetime_us b < datetime_us a" by (simp add: datetime_us_def)
    with le show False by simp
  qed
qed

subsection \<open>Timestamp values\<close>

lemma parse_2005:
  "str_to_ts ''2005-01-01 23:56:42'' =
     Inr \<lparr>year = 2005, month = 1, day = 1, hour = 23, minute = 56, second = 42, microsecond = 0\<rparr>"
  by code_simp

lemma parse_2016:
  "str_to_ts ''2016-01-01 10:50:00'' =
     Inr \<lparr>year = 2016, month = 1, day = 1, hour = 10, minute = 50, second = 0, microsecond = 0\<rparr>"
  by code_simp


lemma datetime_us_of_le:
  assumes va: "valid_datetime a" and vb: "valid_datetime b" and le: "datetime_le a b"
  shows "datetime_us a \<le> datetime_us b"
proof (rule ccontr)
  assume "\<not> datetime_us a \<le> datetime_us b"
  then have less: "datetime_us b < datetime_us a" by simp
  then have "datetime_le b a" using vb va by (intro datetime_le_of_us) simp_all
  with le have "datetime_tuple a = datetime_tuple b"
    by (auto simp add: datetime_le_def datetime_tuple_def)
  then have "datetime_us a = datetime_us b"
    by (simp add: datetime_tuple_def datetime_us_def toordinal_def)
  with less show False by simp
qed

lemma rand_ts_between:
  assumes pa: "str_to_ts smin = Inr a" and pb: "str_to_ts smax = Inr b"
  shows "\<exists>v. rand_ts smin smax g = Inr (v, \<lambda>i. g (Suc i))
    \<and> (datetime_le a b \<longrightarrow> datetime_le a v \<and> datetime_le v b)
    \<and> (datetime_le b a \<longrightarrow> datetime_le b v \<and> datetime_le v a)"
proof -
  from pa have va: "valid_datetime a" by (simp add: str_to_ts_def strptime_valid)
  from pb have vb: "valid_datetime b" by (simp add: str_to_ts_def strptime_valid)
  from pa pb obtain v where r: "rand_ts smin smax g = Inr (v, \<lambda>i. g (Suc i))"
    and vv: "valid_datetime v"
    and lo: "min (datetime_us a) (datetime_us b) \<le> datetime_us v"
    and hi: "datetime_us v \<le> max (datetime_us a) (datetime_us b)"
    by (rule rand_ts_core)
  have up: "datetime_le a v \<and> datetime_le v b" if "datetime_le a b"
  proof -
    from va vb that have "datetime_us a \<le> datetime_us b" by (rule datetime_us_of_le)
    with lo hi have "datetime_us a \<le> datetime_us v" "datetime_us v \<le> datetime_us b"
      by simp_all
    with va vb vv show ?thesis by (simp add: datetime_le_of_us)
  qed
  have down: "datetime_le b v \<and> datetime_le v a" if "datetime_le b a"
  proof -
    from vb va that have "datetime_us b \<le> datetime_us a" by (rule datetime_us_of_le)
    with lo hi have "datetime_us b \<le> datetime_us v" "datetime_us v \<le> datetime_us a"
      by simp_all
    with va vb vv show ?thesis by (simp add: datetime_le_of_us)
  qed
  from r up down show ?thesis by blast
qed

text \<open>
  C6: for a timestamp field whose bounds parse, with \<open>min \<le> max\<close>, the generator
  returns a value, and the value lies in the inclusive window \<open>[min, max]\<close>, whatever
  the random source draws. The order is the one Python compares datetimes with. The
  witness is the window of the \<open>ts\<close> field, 2005-01-01 23:56:42 to
  2016-01-01 10:50:00, for every random source.
\<close>

theorem rand_ts_in_window:
  assumes "str_to_ts smin = Inr tmin" and "str_to_ts smax = Inr tmax"
    and "datetime_le tmin tmax"
  shows "\<exists>v g'. rand_ts smin smax g = Inr (v, g') \<and> datetime_le tmin v \<and> datetime_le v tmax"
proof -
  from rand_ts_between [OF assms(1,2), of g] assms(3) show ?thesis by blast
qed

theorem rand_ts_in_window_witness:
  "\<forall>g. \<exists>v g'. rand_ts ''2005-01-01 23:56:42'' ''2016-01-01 10:50:00'' g = Inr (v, g')
     \<and> datetime_le \<lparr>year = 2005, month = 1, day = 1, hour = 23, minute = 56, second = 42,
          microsecond = 0\<rparr> v
     \<and> datetime_le v \<lparr>year = 2016, month = 1, day = 1, hour = 10, minute = 50, second = 0,
          microsecond = 0\<rparr>"
proof
  fix g
  have le: "datetime_le
     \<lparr>year = 2005, month = 1, day = 1, hour = 23, minute = 56, second = 42, microsecond = 0\<rparr>
     \<lparr>year = 2016, month = 1, day = 1, hour = 10, minute = 50, second = 0, microsecond = 0\<rparr>"
    by (simp add: datetime_le_def datetime_tuple_def)
  show "\<exists>v g'. rand_ts ''2005-01-01 23:56:42'' ''2016-01-01 10:50:00'' g = Inr (v, g')
     \<and> datetime_le \<lparr>year = 2005, month = 1, day = 1, hour = 23, minute = 56, second = 42,
          microsecond = 0\<rparr> v
     \<and> datetime_le v \<lparr>year = 2016, month = 1, day = 1, hour = 10, minute = 50, second = 0,
          microsecond = 0\<rparr>"
    by (rule rand_ts_in_window [OF parse_2005 parse_2016 le])
qed

text \<open>
  C4 says that timestamp generation fails when a bound does not parse or when
  \<open>max < min\<close>. The second half does not hold: \<open>random.uniform(0, delta)\<close> accepts a
  negative \<open>delta\<close>, and with the bounds of the \<open>ts\<close> field swapped the generator
  returns 2014-06-29 22:30:33.990818.
\<close>

theorem rand_ts_reversed_counterexample:
  "map_sum id fst (rand_ts ''2016-01-01 10:50:00'' ''2005-01-01 23:56:42'' sample_rng) =
     Inr \<lparr>year = 2014, month = 6, day = 29, hour = 22, minute = 30, second = 33,
          microsecond = 990818\<rparr>"
  by code_simp

lemma strptime_error: "strptime s = Inl e \<Longrightarrow> e = ValueError"
  unfolding strptime_def
  by (auto simp add: datetime_new_def split: option.splits prod.splits if_splits list.splits)

lemma rand_ts_parse_error:
  assumes "str_to_ts smin = Inl e \<or> (\<exists>a. str_to_ts smin = Inr a \<and> str_to_ts smax = Inl e)"
  shows "rand_ts smin smax g = Inl e"
  using assms by (auto simp add: rand_ts_def)

text \<open>
  C4, amended: timestamp generation raises (a \<open>ValueError\<close>) exactly when one of the two
  bound strings does not parse; with bounds that parse and \<open>max \<le> min\<close> it returns a
  value of the window \<open>[max, min]\<close>.
\<close>

theorem rand_ts_fails_iff_unparseable:
  "(rand_ts smin smax g = Inl ValueError \<longleftrightarrow>
      str_to_ts smin = Inl ValueError \<or> str_to_ts smax = Inl ValueError)
   \<and> (\<forall>tmin tmax. str_to_ts smin = Inr tmin \<and> str_to_ts smax = Inr tmax \<and> datetime_le tmax tmin
        \<longrightarrow> (\<exists>v g'. rand_ts smin smax g = Inr (v, g') \<and> datetime_le tmax v \<and> datetime_le v tmin))"
proof (intro conjI allI impI iffI)
  assume f: "rand_ts smin smax g = Inl ValueError"
  show "str_to_ts smin = Inl ValueError \<or> str_to_ts smax = Inl ValueError"
  proof (cases "str_to_ts smin")
    case (Inl e)
    then show ?thesis by (simp add: str_to_ts_def strptime_error)
  next
    case a: (Inr a)
    show ?thesis
    proof (cases "str_to_ts smax")
      case (Inl e)
      then show ?thesis by (simp add: str_to_ts_def strptime_error)
    next
      case (Inr b)
      from rand_ts_between [OF a Inr, of g] f show ?thesis by auto
    qed
  qed
next
  assume "str_to_ts smin = Inl ValueError \<or> str_to_ts smax = Inl ValueError"
  then show "rand_ts smin smax g = Inl ValueError"
  proof
    assume "str_to_ts smin = Inl ValueError"
    then show ?thesis by (simp add: rand_ts_parse_error)
  next
    assume b: "str_to_ts smax = Inl ValueError"
    show ?thesis
    proof (cases "str_to_ts smin")
      case (Inl e)
      then have "e = ValueError" by (simp add: str_to_ts_def strptime_error)
      with Inl show ?thesis by (simp add: rand_ts_parse_error)
    next
      case (Inr a)
      with b show ?thesis by (simp add: rand_ts_parse_error)
    qed
  qed
next
  fix tmin tmax
  assume "str_to_ts smin = Inr tmin \<and> str_to_ts smax = Inr tmax \<and> datetime_le tmax tmin"
  then have a: "str_to_ts smin = Inr tmin" and b: "str_to_ts smax = Inr tmax"
    and le: "datetime_le tmax tmin" by simp_all
  from rand_ts_between [OF a b, of g] le
  show "\<exists>v g'. rand_ts smin smax g = Inr (v, g') \<and> datetime_le tmax v \<and> datetime_le v tmin"
    by blast
qed

lemma parse_bad: "str_to_ts ''2005-02-30 23:56:42'' = Inl ValueError"
  by code_simp

theorem rand_ts_fails_iff_unparseable_witness:
  "rand_ts ''2005-02-30 23:56:42'' ''2016-01-01 10:50:00'' sample_rng = Inl ValueError
   \<and> (\<exists>v g'. rand_ts ''2016-01-01 10:50:00'' ''2005-01-01 23:56:42'' sample_rng = Inr (v, g')
        \<and> datetime_le \<lparr>year = 2005, month = 1, day = 1, hour = 23, minute = 56, second = 42,
             microsecond = 0\<rparr> v
        \<and> datetime_le v \<lparr>year = 2016, month = 1, day = 1, hour = 10, minute = 50, second = 0,
             microsecond = 0\<rparr>)"
proof -
  have le: "datetime_le
     \<lparr>year = 2005, month = 1, day = 1, hour = 23, minute = 56, second = 42, microsecond = 0\<rparr>
     \<lparr>year = 2016, month = 1, day = 1, hour = 10, minute = 50, second = 0, microsecond = 0\<rparr>"
    by (simp add: datetime_le_def datetime_tuple_def)
  from rand_ts_fails_iff_unparseable
    [of "''2005-02-30 23:56:42''" "''2016-01-01 10:50:00''" sample_rng] parse_bad
  have 1: "rand_ts ''2005-02-30 23:56:42'' ''2016-01-01 10:50:00'' sample_rng = Inl ValueError"
    by simp
  from rand_ts_fails_iff_unparseable
    [of "''2016-01-01 10:50:00''" "''2005-01-01 23:56:42''" sample_rng] parse_2005 parse_2016 le
  have 2: "\<exists>v g'. rand_ts ''2016-01-01 10:50:00'' ''2005-01-01 23:56:42'' sample_rng = Inr (v, g')
        \<and> datetime_le \<lparr>year = 2005, month = 1, day = 1, hour = 23, minute = 56, second = 42,
             microsecond = 0\<rparr> v
        \<and> datetime_le v \<lparr>year = 2016, month = 1, day = 1, hour = 10, minute = 50, second = 0,
             microsecond = 0\<rparr>"
    by blast
  from 1 2 show ?thesis by (rule conjI)
qed

subsection \<open>Integer values\<close>

lemma randbelow_range:
  assumes "0 < n"
  shows "0 \<le> fst (randbelow n g) \<and> fst (randbelow n g) < n"
  using assms by (simp add: randbelow_def draw_def split: prod.splits)

text \<open>
  C5: for an integer field with \<open>min < max\<close> the generator returns a value, and the
  value lies in the half-open interval \<open>[min, max)\<close>, whatever the random source
  draws. (The distribution itself is not part of the model; every value of the
  interval is reachable, see \<open>rand_int_reaches\<close>.)
\<close>

theorem rand_int_in_range:
  assumes "lo < hi"
  shows "\<exists>v g'. rand_int lo hi g = Inr (v, g') \<and> lo \<le> v \<and> v < hi"
proof -
  obtain k g' where kg: "randbelow (hi - lo) g = (k, g')"
    by (cases "randbelow (hi - lo) g")
  from assms have "0 < hi - lo" by simp
  from randbelow_range [OF this, of g] kg have "0 \<le> k" "k < hi - lo" by simp_all
  with assms kg show ?thesis
    by (simp add: rand_int_def randrange_def)
qed

theorem rand_int_in_range_witness:
  "(1::int) < 50 \<and>
   (\<exists>v g'. rand_int 1 50 (\<lambda>i. 123 + int i) = Inr (v, g') \<and> 1 \<le> v \<and> v < 50)"
  using rand_int_in_range [of 1 50 "\<lambda>i. 123 + int i"] by simp

lemma rand_int_reaches:
  assumes "lo \<le> v" and "v < hi"
  shows "\<exists>g g'. rand_int lo hi g = Inr (v, g')"
proof -
  let ?g = "\<lambda>i::nat. v - lo"
  from assms have "(v - lo) mod (hi - lo) = v - lo" by simp
  with assms have "rand_int lo hi ?g = Inr (v, \<lambda>i. ?g (Suc i))"
    by (simp add: rand_int_def randrange_def randbelow_def draw_def)
  then show ?thesis by blast
qed

text \<open>
  C9: integer generation raises (\<open>ValueError\<close> from \<open>randrange\<close>) whenever
  \<open>min \<ge> max\<close>.
\<close>

theorem rand_int_empty_range:
  assumes "hi \<le> lo"
  shows "rand_int lo hi g = Inl ValueError"
  using assms by (simp add: rand_int_def randrange_def)

theorem rand_int_empty_range_witness:
  "(5::int) \<le> 5 \<and> rand_int 5 5 (\<lambda>i. 7) = Inl ValueError"
  using rand_int_empty_range [of 5 5 "\<lambda>i. 7"] by simp

subsection \<open>Formatted values\<close>

lemma digit_char_digit: "d < 10 \<Longrightarrow> digit_char d \<in> set ''0123456789''"
proof -
  assume "d < 10"
  then consider "d \<le> 0" | "d = 1" | "d = 2" | "d = 3" | "d = 4" | "d = 5" | "d = 6"
    | "d = 7" | "d = 8" | "d = 9"
    by linarith
  then show ?thesis
    by cases (simp_all add: digit_char_def)
qed

lemma str_nat_digits: "set (str_nat n) \<subseteq> set ''0123456789''"
proof (induction n rule: str_nat.induct)
  case (1 n)
  show ?case
  proof (cases "n < 10")
    case True
    then show ?thesis
      using digit_char_digit [of n] by (subst str_nat.simps) simp
  next
    case False
    have "n mod 10 < 10" by simp
    then have "digit_char (n mod 10) \<in> set ''0123456789''"
      by (rule digit_char_digit)
    with 1 False show ?thesis
      by (subst str_nat.simps) simp
  qed
qed

lemma str_nat_nonempty: "str_nat n \<noteq> []"
  by (subst str_nat.simps) simp

lemma digits_value_chars: "set ''0123456789'' \<subseteq> value_chars"
  by (simp add: value_chars_def)

lemma str_nat_chars: "set (str_nat n) \<subseteq> value_chars"
  using str_nat_digits [of n] digits_value_chars by blast

lemma str_int_chars: "set (str_int i) \<subseteq> value_chars"
  using str_nat_chars [of i] str_nat_chars [of "- i"]
  by (auto simp add: str_int_def value_chars_def)

lemma str_int_nonempty: "str_int i \<noteq> []"
  by (simp add: str_int_def str_nat_nonempty)

lemma format_d_chars: "set (format_d w i) \<subseteq> value_chars"
  using str_nat_chars [of "\<bar>i\<bar>"]
  by (auto simp add: format_d_def Let_def value_chars_def)

lemma format_d_nonempty: "format_d w i \<noteq> []"
  by (simp add: format_d_def Let_def str_nat_nonempty)

lemma datetime_str_chars: "set (datetime_str dt) \<subseteq> value_chars"
proof -
  have sep: "CHR ''-'' \<in> value_chars" "CHR '':'' \<in> value_chars" "CHR '' '' \<in> value_chars"
    "CHR ''.'' \<in> value_chars"
    by (simp_all add: value_chars_def)
  show ?thesis
    unfolding datetime_str_def format_time_def
    using format_d_chars sep by (auto simp del: format_d_def)
qed

lemma datetime_str_nonempty: "datetime_str dt \<noteq> []"
  by (simp add: datetime_str_def format_d_nonempty)


lemma RandomData_init_int:
  assumes "lo < hi"
  shows "\<exists>x g'. RandomData_init nm ''int'' (PyInt lo) (PyInt hi) g = Inr (x, g')
           \<and> name x = nm \<and> printable x"
  using assms
  by (simp add: RandomData_init_def rand_value_def rand_int_def randrange_def randbelow_def
      draw_def Let_def printable_def py_str_def str_int_chars str_int_nonempty)

lemma RandomData_init_ts:
  "\<exists>x g'. RandomData_init nm ''ts'' (PyStr ''2005-01-01 23:56:42'')
             (PyStr ''2016-01-01 10:50:00'') g = Inr (x, g')
           \<and> name x = nm \<and> printable x"
proof -
  from rand_ts_between [OF parse_2005 parse_2016, of g]
  obtain v where "rand_ts ''2005-01-01 23:56:42'' ''2016-01-01 10:50:00'' g
      = Inr (v, \<lambda>i. g (Suc i))"
    by blast
  then show ?thesis
    by (simp add: RandomData_init_def rand_value_def printable_def py_str_def
        datetime_str_chars datetime_str_nonempty)
qed

lemma DataString_init_ok:
  "\<exists>d g'. DataString_init g = Inr (d, g') \<and> map name d = field_names
     \<and> (\<forall>x \<in> set d. printable x)"
proof -
  obtain x1 g1 where r1: "RandomData_init ''start_page'' ''int'' (PyInt 1) (PyInt 1000000000) g
      = Inr (x1, g1)" and p1: "name x1 = ''start_page''" "printable x1"
    using RandomData_init_int [of 1 1000000000 "''start_page''" g] by auto
  obtain x2 g2 where r2: "RandomData_init ''user'' ''int'' (PyInt 1) (PyInt 100000000) g1
      = Inr (x2, g2)" and p2: "name x2 = ''user''" "printable x2"
    using RandomData_init_int [of 1 100000000 "''user''" g1] by auto
  obtain x3 g3 where r3: "RandomData_init ''ts'' ''ts'' (PyStr ''2005-01-01 23:56:42'')
      (PyStr ''2016-01-01 10:50:00'') g2 = Inr (x3, g3)"
    and p3: "name x3 = ''ts''" "printable x3"
    using RandomData_init_ts [of "''ts''" g2] by auto
  obtain x4 g4 where r4: "RandomData_init ''depth'' ''int'' (PyInt 1) (PyInt 50) g3
      = Inr (x4, g4)" and p4: "name x4 = ''depth''" "printable x4"
    using RandomData_init_int [of 1 50 "''depth''" g3] by auto
  obtain x5 g5 where r5: "RandomData_init ''duration'' ''int'' (PyInt 100) (PyInt 10000) g4
      = Inr (x5, g5)" and p5: "name x5 = ''duration''" "printable x5"
    using RandomData_init_int [of 100 10000 "''duration''" g4] by auto
  obtain x6 g6 where r6: "RandomData_init ''transmit'' ''int'' (PyInt 100000) (PyInt 1000000000) g5
      = Inr (x6, g6)" and p6: "name x6 = ''transmit''" "printable x6"
    using RandomData_init_int [of 100000 1000000000 "''transmit''" g5] by auto
  obtain x7 g7 where r7: "RandomData_init ''type'' ''int'' (PyInt 1) (PyInt 5) g6
      = Inr (x7, g7)" and p7: "name x7 = ''type''" "printable x7"
    using RandomData_init_int [of 1 5 "''type''" g6] by auto
  have "DataString_init g = Inr ([x1, x2, x3, x4, x5, x6, x7], g7)"
    unfolding DataString_init_def by (simp only: sequence.simps r1 r2 r3 r4 r5 r6 r7 sum.case prod.case)
  with p1 p2 p3 p4 p5 p6 p7 show ?thesis
    by (simp add: field_names_def)
qed

lemma records_length: "length (records n g) = n"
proof (induction n arbitrary: g)
  case 0
  show ?case by simp
next
  case (Suc n)
  from DataString_init_ok [of g] obtain d g' where "DataString_init g = Inr (d, g')"
    by blast
  with Suc show ?case by simp
qed

lemma records_ok:
  "d \<in> set (records n g) \<Longrightarrow> map name d = field_names \<and> (\<forall>x \<in> set d. printable x)"
proof (induction n arbitrary: g)
  case 0
  then show ?case by simp
next
  case (Suc n)
  from DataString_init_ok [of g] obtain d0 g' where i: "DataString_init g = Inr (d0, g')"
    and ok: "map name d0 = field_names" "\<forall>x \<in> set d0. printable x"
    by blast
  from Suc.prems i have "d = d0 \<or> d \<in> set (records n g')" by simp
  with ok Suc.IH [of g'] show ?case by blast
qed

lemma headers_names:
  "map name d = field_names \<Longrightarrow> headers d = ''start_page,user,ts,depth,duration,transmit,type''"
  by (simp add: headers_def field_names_def)

lemma split_not_Nil: "split c s \<noteq> []"
  by (induction s) (auto split: list.splits)

lemma split_no_sep: "c \<notin> set s \<Longrightarrow> split c s = [s]"
  by (induction s) auto

lemma split_append: "c \<notin> set s \<Longrightarrow> split c (s @ c # t) = s # split c t"
  by (induction s) (auto simp add: split_not_Nil split: list.splits)

lemma join_Cons: "join sep (x # xs) = x @ concat (map (\<lambda>y. sep @ y) xs)"
  by (induction xs arbitrary: x) auto

lemma split_lines:
  "\<forall>l \<in> set (x # xs). c \<notin> set l \<Longrightarrow> split c (join [c] (x # xs)) = x # xs"
proof (induction xs arbitrary: x)
  case Nil
  then show ?case by (simp add: split_no_sep)
next
  case (Cons y ys)
  then have "split c (join [c] (y # ys)) = y # ys" by simp
  with Cons.prems show ?case by (simp add: split_append)
qed

lemma set_join: "set (join sep xs) \<subseteq> set sep \<union> \<Union> (set ` set xs)"
  by (induction sep xs rule: join.induct) auto

lemma values_line:
  assumes n: "map name d = field_names" and p: "\<forall>x \<in> set d. printable x"
  shows "values_v d \<noteq> []" and "newline \<notin> set (values_v d)"
proof -
  from n obtain x xs where d: "d = x # xs" by (cases d) (auto simp add: field_names_def)
  with p have "py_str (value_v x) \<noteq> []" by (simp add: printable_def)
  then show "values_v d \<noteq> []" by (simp add: values_v_def d join_Cons)
  have "set (values_v d) \<subseteq> set '','' \<union> value_chars"
    using set_join [of "'',''" "map (\<lambda>data. py_str (value_v data)) d"] p
    by (auto simp add: values_v_def printable_def)
  then show "newline \<notin> set (values_v d)"
    by (auto simp add: value_chars_def newline_def)
qed

lemma header_line:
  assumes n: "map name d = field_names"
  shows "headers d \<noteq> []" and "newline \<notin> set (headers d)"
  by (simp_all add: headers_names [OF n] newline_def)

lemma csv_loop_ok:
  "\<exists>g'. csv_loop is (out, g)
     = Inr (out @ concat (map (\<lambda>d. [newline] @ values_v d) (records (length is) g)), g')"
proof (induction "is" arbitrary: out g)
  case Nil
  show ?case by simp
next
  case (Cons i "is")
  from DataString_init_ok [of g] obtain d g1 where i: "DataString_init g = Inr (d, g1)"
    by blast
  from Cons [of "out @ ([newline] @ values_v d)" g1] i show ?case by simp
qed

lemma length_range_v: "length (range_v 1 n) = nat (n - 1)"
  by (simp add: range_v_def)

lemma generate_csv_content:
  "\<exists>d g g'. DataString_init (random w) = Inr (d, g) \<and> map name d = field_names \<and>
     generate_csv file n w =
       Inr (w\<lparr>files := (files w)(file \<mapsto>
              join [newline] (headers d # map values_v (records (nat (n - 1)) g))),
             random := g'\<rparr>)"
proof -
  from DataString_init_ok [of "random w"] obtain d g
    where i: "DataString_init (random w) = Inr (d, g)" and n: "map name d = field_names"
    by blast
  from csv_loop_ok [of "range_v 1 n" "headers d" g] obtain g'
    where l: "csv_loop (range_v 1 n) (headers d, g)
      = Inr (headers d @ concat (map (\<lambda>d. [newline] @ values_v d) (records (nat (n - 1)) g)), g')"
    by (auto simp add: length_range_v)
  have "generate_csv file n w =
       Inr (w\<lparr>files := (files w)(file \<mapsto>
              join [newline] (headers d # map values_v (records (nat (n - 1)) g))),
             random := g'\<rparr>)"
    by (simp add: generate_csv_def Let_def i l join_Cons comp_def)
  with i n show ?thesis by blast
qed

lemma csv_lines_ok:
  assumes n: "map name d = field_names"
  shows "\<forall>l \<in> set (headers d # map values_v (records k g)). l \<noteq> [] \<and> newline \<notin> set l"
  using header_line [OF n] values_line records_ok [of _ k g] by auto

lemma ascii_text_Nil: "ascii_text []"
  by (simp add: ascii_text_def)

lemma ascii_text_append: "ascii_text (a @ b) = (ascii_text a \<and> ascii_text b)"
  by (auto simp add: ascii_text_def)

lemma ascii_text_concat: "(\<forall>x \<in> set xs. ascii_text x) \<Longrightarrow> ascii_text (concat xs)"
  by (auto simp add: ascii_text_def)

lemma ascii_encode: "ascii_text s \<Longrightarrow> ascii_xmlcharrefreplace s = s"
  by (induction s) (simp_all add: ascii_text_def ascii_xmlcharrefreplace_def)

lemma ascii_read: "ascii_text s \<Longrightarrow> universal_newlines s = s"
  by (induction s rule: universal_newlines.induct) (simp_all add: ascii_text_def)

lemma value_chars_ascii: "set s \<subseteq> value_chars \<Longrightarrow> ascii_text s"
  by (auto simp add: value_chars_def ascii_text_def)

lemma replace_ascii: "ascii_text new \<Longrightarrow> ascii_text s \<Longrightarrow> ascii_text (replace c new s)"
  by (auto simp add: replace_def ascii_text_def)

lemma escape_cdata_ascii: "ascii_text s \<Longrightarrow> ascii_text (escape_cdata s)"
  unfolding escape_cdata_def
  by (intro replace_ascii) (simp_all add: ascii_text_def)

lemma serialize_ascii: "plain_element e \<Longrightarrow> ascii_text (serialize_xml e)"
proof (induction e)
  case (Element tg tx es)
  from Element.prems have tg: "ascii_text tg"
    and tx: "ascii_text (case tx of None \<Rightarrow> [] | Some s \<Rightarrow> s)"
    and es: "\<forall>e \<in> set es. plain_element e"
    by (auto simp add: list_all_iff ascii_text_Nil split: option.splits)
  from es Element.IH have "\<forall>x \<in> set (map serialize_xml es). ascii_text x"
    by auto
  then have c: "ascii_text (concat (map serialize_xml es))"
    by (rule ascii_text_concat)
  have lit: "ascii_text ''<''" "ascii_text ''>''" "ascii_text ''</''" "ascii_text '' />''"
    by (simp_all add: ascii_text_def)
  from tg escape_cdata_ascii [OF tx] c lit show ?case
    by (simp add: Let_def ascii_text_append del: append.simps)
qed

lemma foldl_append_child:
  "foldl (\<lambda>row node. append_child row (f node)) (Element t x cs) d
     = Element t x (cs @ map f d)"
  by (induction d arbitrary: cs) (simp_all add: append_child_def)

lemma row_element_children:
  "row_element d =
     Element ''row'' None (map (\<lambda>node. Element (name node) (Some (py_str (value_v node))) []) d)"
  unfolding row_element_def by (simp only: foldl_append_child append_Nil)

lemma xml_loop_ok:
  "\<exists>g'. xml_loop is (Element t x cs, g)
     = Inr (Element t x (cs @ map row_element (records (length is) g)), g')"
proof (induction "is" arbitrary: cs g)
  case Nil
  show ?case by simp
next
  case (Cons i "is")
  from DataString_init_ok [of g] obtain d g1 where i: "DataString_init g = Inr (d, g1)"
    by blast
  from Cons [of "cs @ [row_element d]" g1] i show ?case
    by (simp add: append_child_def)
qed

lemma build_tree_rows:
  "\<exists>g'. build_tree n g
     = Inr (Element ''root'' None (map row_element (records (nat (n - 1)) g)), g')"
  using xml_loop_ok [of "range_v 1 n" "''root''" None "[]" g]
  by (simp add: build_tree_def Let_def length_range_v)

lemma field_names_ascii: "nm \<in> set field_names \<Longrightarrow> ascii_text nm"
  by (auto simp add: field_names_def ascii_text_def)

lemma row_element_plain:
  assumes n: "map name d = field_names" and p: "\<forall>x \<in> set d. printable x"
  shows "plain_element (row_element d)"
proof -
  have "ascii_text (name x) \<and> ascii_text (py_str (value_v x))" if "x \<in> set d" for x
  proof -
    from that have "name x \<in> set (map name d)" by simp
    with n have "ascii_text (name x)" by (simp add: field_names_ascii)
    moreover from that p have "ascii_text (py_str (value_v x))"
      by (simp add: printable_def value_chars_ascii)
    ultimately show ?thesis by simp
  qed
  moreover have "ascii_text ''row''" by (simp add: ascii_text_def)
  ultimately show ?thesis
    by (simp add: row_element_children list_all_iff)
qed

lemma root_plain:
  "plain_element (Element ''root'' None (map row_element (records k g)))"
proof -
  have "plain_element (row_element d)" if "d \<in> set (records k g)" for d
    using records_ok [OF that] by (simp add: row_element_plain)
  moreover have "ascii_text ''root''" by (simp add: ascii_text_def)
  ultimately show ?thesis
    by (simp add: list_all_iff)
qed

lemma generate_xml_content:
  "\<exists>g'. build_tree n (random w)
       = Inr (Element ''root'' None (map row_element (records (nat (n - 1)) (random w))), g') \<and>
     generate_xml file n w =
       Inr (w\<lparr>files := (files w)(file \<mapsto> prologue @ [newline] @
              serialize_xml (Element ''root'' None
                (map row_element (records (nat (n - 1)) (random w))))),
             random := g'\<rparr>)"
proof -
  let ?root = "Element ''root'' None (map row_element (records (nat (n - 1)) (random w)))"
  from build_tree_rows [of n "random w"] obtain g'
    where b: "build_tree n (random w) = Inr (?root, g')"
    by blast
  have a: "ascii_text (serialize_xml ?root)"
    by (rule serialize_ascii) (rule root_plain)
  have "generate_xml file n w =
       Inr (w\<lparr>files := (files w)(file \<mapsto> prologue @ [newline] @ serialize_xml ?root),
             random := g'\<rparr>)"
    unfolding generate_xml_def
    by (simp add: b Let_def ascii_encode [OF a] ascii_read [OF a] del: serialize_xml.simps)
  with b show ?thesis by blast
qed

subsection \<open>Records and the header line\<close>

text \<open>
  C8: every record, on whatever random source it is built, has the same header: the
  seven field names in the order of declaration, joined by commas. There is no
  \<open>referer\<close> field. Building a record never fails.
\<close>

theorem headers_fixed:
  "\<exists>d1 g1' d2 g2'.
     DataString_init g1 = Inr (d1, g1') \<and> DataString_init g2 = Inr (d2, g2') \<and>
     headers d1 = headers d2 \<and>
     headers d1 = ''start_page,user,ts,depth,duration,transmit,type''"
proof -
  from DataString_init_ok [of g1] obtain d1 g1'
    where a: "DataString_init g1 = Inr (d1, g1')" "map name d1 = field_names"
    by blast
  from DataString_init_ok [of g2] obtain d2 g2'
    where b: "DataString_init g2 = Inr (d2, g2')" "map name d2 = field_names"
    by blast
  from a b headers_names [of d1] headers_names [of d2] show ?thesis
    by simp
qed

theorem headers_fixed_witness:
  "case DataString_init sample_rng of
     Inl e \<Rightarrow> False
   | Inr (d, g') \<Rightarrow> headers d = ''start_page,user,ts,depth,duration,transmit,type''"
  using headers_fixed [of sample_rng sample_rng] by auto

text \<open>
  C2: the claim asks for exactly three fractional digits in every timestamp, the
  format of the example in the module's documentation (\<open>2016-11-02 16:37:03.240\<close>).
  The program writes \<open>str(value)\<close> of the datetime: six fractional digits when
  the microsecond is not zero, and no fraction at all when it is. The \<open>ts\<close> field
  as \<open>DataString\<close> builds it, evaluated on the sample source and on the source
  whose draws are all zero:
\<close>

theorem ts_fraction_digits:
  "map_sum id (py_str \<circ> value_v \<circ> fst)
     (RandomData_init ''ts'' ''ts'' (PyStr ''2005-01-01 23:56:42'') (PyStr ''2016-01-01 10:50:00'')
        sample_rng) = Inr ''2006-07-06 12:16:08.009182'' \<and>
   map_sum id (py_str \<circ> value_v \<circ> fst)
     (RandomData_init ''ts'' ''ts'' (PyStr ''2005-01-01 23:56:42'') (PyStr ''2016-01-01 10:50:00'')
        (\<lambda>i. 0)) = Inr ''2005-01-01 23:56:42''"
  by code_simp

subsection \<open>The flat output\<close>

text \<open>
  C1: for every row count \<open>N\<close>, \<open>generate_csv\<close> returns, and the file it has
  written is the header of a fresh record followed by the \<open>values()\<close> of \<open>N - 1\<close>
  further fresh records, joined by single newlines: split at the newlines, the
  content is exactly these lines, none of them empty (so there is no doubled and no
  trailing newline). For \<open>N = 5\<close> that is five lines.
\<close>

theorem generate_csv_lines:
  "\<exists>d g g' out.
     DataString_init (random w) = Inr (d, g) \<and>
     generate_csv file n w = Inr (w\<lparr>files := (files w)(file \<mapsto> out), random := g'\<rparr>) \<and>
     out = join [newline] (headers d # map values_v (records (nat (n - 1)) g)) \<and>
     split newline out = headers d # map values_v (records (nat (n - 1)) g) \<and>
     length (records (nat (n - 1)) g) = nat (n - 1) \<and>
     (\<forall>l \<in> set (split newline out). l \<noteq> [])"
proof -
  from generate_csv_content obtain d g g'
    where i: "DataString_init (random w) = Inr (d, g)" and nm: "map name d = field_names"
      and c: "generate_csv file n w =
       Inr (w\<lparr>files := (files w)(file \<mapsto>
              join [newline] (headers d # map values_v (records (nat (n - 1)) g))),
             random := g'\<rparr>)"
    by blast
  let ?ls = "headers d # map values_v (records (nat (n - 1)) g)"
  have ok: "\<forall>l \<in> set ?ls. l \<noteq> [] \<and> newline \<notin> set l"
    by (rule csv_lines_ok [OF nm])
  then have s: "split newline (join [newline] ?ls) = ?ls"
    by (intro split_lines) blast
  from i c s ok records_length [of "nat (n - 1)" g] show ?thesis
    by (intro exI [of _ d] exI [of _ g] exI [of _ g'] exI [of _ "join [newline] ?ls"]) simp
qed

theorem generate_csv_lines_witness:
  "case generate_csv ''data.csv'' 5 \<lparr>files = Map.empty, random = sample_rng\<rparr> of
     Inl e \<Rightarrow> False
   | Inr w' \<Rightarrow>
      (case files w' ''data.csv'' of
         None \<Rightarrow> False
       | Some out \<Rightarrow> length (split newline out) = 5 \<and> [] \<notin> set (split newline out))"
  using generate_csv_lines [of "\<lparr>files = Map.empty, random = sample_rng\<rparr>" "''data.csv''" 5]
  by auto

subsection \<open>The nested output\<close>

text \<open>
  C3: for every row count \<open>N\<close>, the tree \<open>generate_xml\<close> builds is one \<open>root\<close>
  element whose children are \<open>N - 1\<close> elements \<open>row\<close>, one for each fresh record;
  a row has one childless element for each of the seven fields, named
  \<open>start_page\<close>, \<open>user\<close>, \<open>ts\<close>, \<open>depth\<close>, \<open>duration\<close>, \<open>transmit\<close>, \<open>type\<close> in
  this order, whose text is \<open>str(value)\<close> of the field.
\<close>

theorem build_tree_shape:
  "\<exists>g'. build_tree n g
       = Inr (Element ''root'' None (map row_element (records (nat (n - 1)) g)), g') \<and>
     length (records (nat (n - 1)) g) = nat (n - 1) \<and>
     (\<forall>d \<in> set (records (nat (n - 1)) g).
        row_element d =
          Element ''row'' None
            (map (\<lambda>node. Element (name node) (Some (py_str (value_v node))) []) d) \<and>
        map name d =
          [''start_page'', ''user'', ''ts'', ''depth'', ''duration'', ''transmit'', ''type''])"
proof -
  from build_tree_rows [of n g] obtain g'
    where "build_tree n g
       = Inr (Element ''root'' None (map row_element (records (nat (n - 1)) g)), g')"
    by blast
  moreover have "map name d =
      [''start_page'', ''user'', ''ts'', ''depth'', ''duration'', ''transmit'', ''type'']"
    if "d \<in> set (records (nat (n - 1)) g)" for d
    using records_ok [OF that] by (simp add: field_names_def)
  ultimately show ?thesis
    using records_length [of "nat (n - 1)" g] row_element_children by blast
qed

theorem build_tree_shape_witness:
  "case build_tree 5 sample_rng of
     Inl e \<Rightarrow> False
   | Inr (r, g') \<Rightarrow>
      tag r = ''root'' \<and> length (children r) = 4 \<and>
      (\<forall>row \<in> set (children r).
         tag row = ''row'' \<and>
         map tag (children row) =
           [''start_page'', ''user'', ''ts'', ''depth'', ''duration'', ''transmit'', ''type''])"
proof -
  from build_tree_shape [of 5 sample_rng] obtain g'
    where b: "build_tree 5 sample_rng
       = Inr (Element ''root'' None (map row_element (records (nat (5 - 1)) sample_rng)), g')"
     and l: "length (records (nat (5 - 1)) sample_rng) = nat (5 - 1)"
     and r: "\<forall>d \<in> set (records (nat (5 - 1)) sample_rng).
        row_element d =
          Element ''row'' None
            (map (\<lambda>node. Element (name node) (Some (py_str (value_v node))) []) d) \<and>
        map name d =
          [''start_page'', ''user'', ''ts'', ''depth'', ''duration'', ''transmit'', ''type'']"
    by blast
  have "tag (row_element d) = ''row'' \<and> map tag (children (row_element d)) =
      [''start_page'', ''user'', ''ts'', ''depth'', ''duration'', ''transmit'', ''type'']"
    if "d \<in> set (records (nat (5 - 1)) sample_rng)" for d
  proof -
    from r that have e: "row_element d =
          Element ''row'' None
            (map (\<lambda>node. Element (name node) (Some (py_str (value_v node))) []) d)"
      and n: "map name d =
          [''start_page'', ''user'', ''ts'', ''depth'', ''duration'', ''transmit'', ''type'']"
      by blast+
    have "map tag (map (\<lambda>node. Element (name node) (Some (py_str (value_v node))) []) d)
        = map name d"
      by (simp add: comp_def)
    with e n show ?thesis by simp
  qed
  with b l show ?thesis by simp
qed

text \<open>
  C7: for every row count, \<open>generate_xml\<close> returns, and the file it leaves is the
  declaration, a newline, and then the serialization of the tree it has built.
\<close>

theorem generate_xml_prologue:
  \<open>\<exists>root_e g'.
     build_tree n (random w) = Inr (root_e, g') \<and>
     generate_xml file n w =
       Inr (w\<lparr>files := (files w)(file \<mapsto>
              ''<?xml version="1.0" encoding="UTF-8"?>'' @ [newline] @ serialize_xml root_e),
             random := g'\<rparr>)\<close>
  using generate_xml_content [of n w] unfolding prologue_def by blast

theorem generate_xml_prologue_witness:
  \<open>case generate_xml ''data.xml'' 1 \<lparr>files = Map.empty, random = sample_rng\<rparr> of
     Inl e \<Rightarrow> False
   | Inr w' \<Rightarrow>
      files w' ''data.xml'' =
        Some (''<?xml version="1.0" encoding="UTF-8"?>'' @ [newline] @ ''<root />'')\<close>
proof -
  have b: "build_tree 1 sample_rng = Inr (Element ''root'' None [], sample_rng)"
    by (simp add: build_tree_def range_v_def)
  from generate_xml_prologue [of 1 "\<lparr>files = Map.empty, random = sample_rng\<rparr>" "''data.xml''"]
  show ?thesis
    by (auto simp add: b)
qed

subsection \<open>Row counts below two\<close>

text \<open>
  C10: for a row count \<open>N \<le> 1\<close>, zero and negative counts included, both generators
  return: the flat file is the header line alone, the tree is a \<open>root\<close> element
  without children, and the nested file is the declaration followed by the empty
  root element.
\<close>

theorem no_rows:
  assumes \<open>n \<le> 1\<close>
  shows \<open>\<exists>g'.
     generate_csv file n w =
       Inr (w\<lparr>files := (files w)(file \<mapsto> ''start_page,user,ts,depth,duration,transmit,type''),
             random := g'\<rparr>) \<and>
     build_tree n (random w) = Inr (Element ''root'' None [], random w) \<and>
     generate_xml file n w =
       Inr (w\<lparr>files := (files w)(file \<mapsto>
              ''<?xml version="1.0" encoding="UTF-8"?>'' @ [newline] @ ''<root />'')\<rparr>)\<close>
proof -
  from assms have z: "nat (n - 1) = 0" by simp
  from generate_csv_content obtain d g g'
    where nm: "map name d = field_names"
      and c: "generate_csv file n w =
       Inr (w\<lparr>files := (files w)(file \<mapsto>
              join [newline] (headers d # map values_v (records (nat (n - 1)) g))),
             random := g'\<rparr>)"
    by blast
  from c have csv: "generate_csv file n w =
       Inr (w\<lparr>files := (files w)(file \<mapsto> ''start_page,user,ts,depth,duration,transmit,type''),
             random := g'\<rparr>)"
    by (simp only: z records.simps list.map join.simps headers_names [OF nm])
  from assms have e: "range_v 1 n = []" by (simp add: range_v_def)
  have b: "build_tree n (random w) = Inr (Element ''root'' None [], random w)"
    by (simp add: build_tree_def e)
  from generate_xml_content [of n w] b
  have "generate_xml file n w =
       Inr (w\<lparr>files := (files w)(file \<mapsto> prologue @ [newline] @
              serialize_xml (Element ''root'' None [])), random := random w\<rparr>)"
    by (simp add: z)
  then have \<open>generate_xml file n w =
       Inr (w\<lparr>files := (files w)(file \<mapsto>
              ''<?xml version="1.0" encoding="UTF-8"?>'' @ [newline] @ ''<root />'')\<rparr>)\<close>
    by (simp add: prologue_def)
  with csv b show ?thesis by blast
qed

theorem no_rows_witness:
  \<open>(- 3 :: int) \<le> 1 \<and>
   (case generate_csv ''data.csv'' (- 3) \<lparr>files = Map.empty, random = sample_rng\<rparr> of
      Inl e \<Rightarrow> False
    | Inr w' \<Rightarrow>
       files w' ''data.csv'' = Some ''start_page,user,ts,depth,duration,transmit,type'') \<and>
   (case generate_xml ''data.csv'' (- 3) \<lparr>files = Map.empty, random = sample_rng\<rparr> of
      Inl e \<Rightarrow> False
    | Inr w' \<Rightarrow>
       files w' ''data.csv'' =
         Some (''<?xml version="1.0" encoding="UTF-8"?>'' @ [newline] @ ''<root />''))\<close>
  using no_rows [of "- 3" "''data.csv''" "\<lparr>files = Map.empty, random = sample_rng\<rparr>"]
  by auto

end
